theory Spec2Isabelle
  imports Main
begin

section \<open>The request execution pipeline of cast.go\<close>

text \<open>
  The theory embeds \<^verbatim>\<open>(*Cast).Do\<close> and \<^verbatim>\<open>(*Cast).genReply\<close> of
  \<^verbatim>\<open>cast.go\<close>. Both functions are sequences of calls into collaborators whose
  code is elsewhere (the request's \<^verbatim>\<open>ReqBody\<close>, the hooks, the HTTP client, the
  circuit breaker, the clock). Every such call is a function of an abstract world
  \<open>'w\<close> that returns its result and the next world, and every call is recorded, with
  its arguments and its result, in a trace of events. The properties below are
  statements about the value \<^verbatim>\<open>Do\<close> returns and about that trace.
\<close>

subsection \<open>Data\<close>

type_synonym bytes = "nat list"

text \<open>A Go \<^verbatim>\<open>error\<close> value; \<^verbatim>\<open>nil\<close> is \<open>None\<close> of \<open>error option\<close>.\<close>

datatype error = Error string

text \<open>
  A \<^verbatim>\<open>context.Context\<close>: the placeholder \<^verbatim>\<open>context.TODO()\<close>, the background
  context, or a cancellable context made by the caller.
\<close>

datatype Context = TODO | Background | WithCancel nat

text \<open>The fields of \<^verbatim>\<open>http.Request\<close> and \<^verbatim>\<open>http.Response\<close> the code touches.\<close>

record http_Request =
  Ctx :: Context
  Method :: string
  URL :: string
  Body :: bytes

record http_Response =
  StatusCode :: int
  BodyStream :: nat

text \<open>
  \<^verbatim>\<open>Request\<close> and \<^verbatim>\<open>Response\<close> are declared in other files of the package; these are
  the fields \<^verbatim>\<open>cast.go\<close> reads and writes (\<open>httpMethod\<close> is the field
  \<^verbatim>\<open>method\<close>). A nil pointer or a nil slice is \<open>None\<close>.
\<close>

record profiling =
  requestStart :: int
  requestDone :: int
  requestCost :: int
  receivingSart :: int
  receivingDone :: int
  receivingCost :: int

record Request =
  httpMethod :: string
  path :: string
  circuitName :: string
  rawRequest :: "http_Request option"
  prof :: profiling

record Response =
  request :: Request
  rawResponse :: "http_Response option"
  body :: "bytes option"
  statusCode :: int

text \<open>A \<^verbatim>\<open>*circuit.Circuit\<close>, by its address.\<close>

datatype circuit = Circuit nat

text \<open>
  What a call can end with besides a result: the \<^verbatim>\<open>error\<close> it returns, or the
  panic of a nil \<^verbatim>\<open>request.rawRequest\<close> (a request hook may have reset the field).
\<close>

datatype failure = Returned error | Panic

subsection \<open>Events\<close>

text \<open>
  One event per call that leaves \<^verbatim>\<open>cast.go\<close>, in the order of the calls, with the
  arguments and the result of the call. Hook events carry the position of the hook in
  its chain. \<^verbatim>\<open>cb.Execute\<close> calls back into \<^verbatim>\<open>cast.go\<close>, so it has two events:
  \<open>EvExecute\<close> when it is called, with its context argument, and \<open>EvExecuted\<close> when
  it returns, with the error it returns.
\<close>

datatype event =
    EvReqBody "error option"
  | EvLog string error
  | EvBeforeRequestHook nat "error option"
  | EvNewRequest Context string string bytes
  | EvRequestHook nat "error option"
  | EvGetCircuit string "circuit option"
  | EvExecute circuit Context
  | EvExecuted circuit "error option"
  | EvClientDo "http_Response option" "error option"
  | EvNow
  | EvReadAll http_Response "error option"
  | EvClose http_Response "error option"
  | EvIsOpen circuit bool
  | EvRetryHook nat "Response option" "error option" bool
  | EvBackoff int int
  | EvAfter int
  | EvResponseHook nat "Response option" "error option"

record 'w state =
  world :: 'w
  trace :: "event list"

definition start :: "'w \<Rightarrow> 'w state" where
  "start w = \<lparr>world = w, trace = []\<rparr>"

definition emit :: "event \<Rightarrow> 'w \<Rightarrow> 'w state \<Rightarrow> 'w state" where
  "emit e w s = \<lparr>world = w, trace = trace s @ [e]\<rparr>"

subsection \<open>Collaborators\<close>

text \<open>
  The library calls of \<^verbatim>\<open>cast.go\<close>, taken as parameters.

  \<^descr>[\<open>ReqBody\<close>] \<^verbatim>\<open>request.ReqBody()\<close>.
  \<^descr>[\<open>NewRequestWithContext\<close>] \<^verbatim>\<open>http.NewRequestWithContext(ctx, method, url, body)\<close>.
  \<^descr>[\<open>Execute_admit\<close>, \<open>Execute_result\<close>] \<^verbatim>\<open>cb.Execute(ctx, run, fallback)\<close>.
    Modelled from the spec: the breaker is an external service whose \<^verbatim>\<open>Execute\<close>
    runs the attempt closure and aggregates its error into the breaker's health
    accounting, and which can refuse further attempts once unhealthy. So
    \<^verbatim>\<open>Execute\<close> runs the closure at most once: \<open>Execute_admit\<close> is the breaker's
    decision (\<open>Some e\<close>: the closure is not run and \<^verbatim>\<open>Execute\<close> returns \<open>e\<close>, which the
    fallback function of line 191 hands back unchanged), and \<open>Execute_result\<close> maps
    what the closure returned to what \<^verbatim>\<open>Execute\<close> returns.
  \<^descr>[\<open>IsOpen\<close>] \<^verbatim>\<open>cb.IsOpen()\<close>.
  \<^descr>[\<open>ReadAll\<close>, \<open>Close\<close>] \<^verbatim>\<open>ioutil.ReadAll(rawResponse.Body)\<close> and
    \<^verbatim>\<open>rawResponse.Body.Close()\<close>.
  \<^descr>[\<open>Now\<close>] \<^verbatim>\<open>time.Now().In(time.UTC)\<close>.
  \<^descr>[\<open>After\<close>] \<^verbatim>\<open><-time.After(d)\<close>: the world once the wait is over.
\<close>

record 'w collaborators =
  ReqBody :: "Request \<Rightarrow> 'w \<Rightarrow> (error + bytes) \<times> 'w"
  NewRequestWithContext :: "Context \<Rightarrow> string \<Rightarrow> string \<Rightarrow> bytes \<Rightarrow> error + http_Request"
  Execute_admit :: "circuit \<Rightarrow> Context \<Rightarrow> 'w \<Rightarrow> error option \<times> 'w"
  Execute_result :: "circuit \<Rightarrow> Context \<Rightarrow> error option \<Rightarrow> 'w \<Rightarrow> error option \<times> 'w"
  IsOpen :: "circuit \<Rightarrow> 'w \<Rightarrow> bool"
  ReadAll :: "http_Response \<Rightarrow> 'w \<Rightarrow> (error + bytes) \<times> 'w"
  Close :: "http_Response \<Rightarrow> 'w \<Rightarrow> error option \<times> 'w"
  Now :: "'w \<Rightarrow> int \<times> 'w"
  After :: "int \<Rightarrow> 'w \<Rightarrow> 'w"

text \<open>
  The fields of \<^verbatim>\<open>Cast\<close> that \<^verbatim>\<open>Do\<close> and \<^verbatim>\<open>genReply\<close> use. \<open>client\<close> is
  \<^verbatim>\<open>c.client.Do\<close>, \<open>stg\<close> the \<^verbatim>\<open>backoff\<close> method of the strategy (\<open>None\<close> when
  \<^verbatim>\<open>c.stg\<close> is nil), \<open>h\<close> the lookup \<^verbatim>\<open>c.h.GetCircuit\<close>. A before-request or request
  hook gets the request by pointer and returns it as it left it; a retry or response
  hook gets the response pointer. The hooks' other argument, \<^verbatim>\<open>c\<close>, is not changed
  during a call. \<^verbatim>\<open>retry\<close> and the attempt counter are Go \<^verbatim>\<open>int\<close>s; the counter
  never exceeds \<^verbatim>\<open>retry + 1\<close>, so it is an \<open>int\<close> here.
\<close>

record 'w Cast =
  client :: "http_Request \<Rightarrow> 'w \<Rightarrow> (http_Response option \<times> error option) \<times> 'w"
  baseURL :: string
  retry :: int
  stg :: "(int \<Rightarrow> 'w \<Rightarrow> int \<times> 'w) option"
  beforeRequestHooks :: "(Request \<Rightarrow> 'w \<Rightarrow> (error option \<times> Request) \<times> 'w) list"
  requestHooks :: "(Request \<Rightarrow> 'w \<Rightarrow> (error option \<times> Request) \<times> 'w) list"
  responseHooks :: "(Response option \<Rightarrow> 'w \<Rightarrow> error option \<times> 'w) list"
  retryHooks :: "(Response option \<Rightarrow> error option \<Rightarrow> 'w \<Rightarrow> bool \<times> 'w) list"
  h :: "string \<Rightarrow> circuit option"
  defaultCircuitName :: string

subsection \<open>Hook chains\<close>

text \<open>
  Lines 119-124 and 132-137: \<^verbatim>\<open>for _, hook := range hooks\<close>, returning at the first
  error. \<open>ev\<close> is the event of the chain, \<open>i\<close> the position of the next hook.
\<close>

fun requestHooks_loop ::
  "(nat \<Rightarrow> error option \<Rightarrow> event) \<Rightarrow> nat \<Rightarrow> (Request \<Rightarrow> 'w \<Rightarrow> (error option \<times> Request) \<times> 'w) list \<Rightarrow>
   Request \<Rightarrow> 'w state \<Rightarrow> (error + Request) \<times> 'w state" where
  "requestHooks_loop ev i [] rq s = (Inr rq, s)"
| "requestHooks_loop ev i (hook # hooks) rq s =
     (case hook rq (world s) of
        ((Some err, rq'), w) \<Rightarrow> (Inl err, emit (ev i (Some err)) w s)
      | ((None, rq'), w) \<Rightarrow> requestHooks_loop ev (Suc i) hooks rq' (emit (ev i None) w s))"

text \<open>Lines 144-149: the response hooks; an error is logged and returned.\<close>

fun responseHooks_loop ::
  "nat \<Rightarrow> (Response option \<Rightarrow> 'w \<Rightarrow> error option \<times> 'w) list \<Rightarrow> Response option \<Rightarrow> 'w state \<Rightarrow>
   error option \<times> 'w state" where
  "responseHooks_loop i [] rep s = (None, s)"
| "responseHooks_loop i (hook # hooks) rep s =
     (case hook rep (world s) of
        (Some err, w) \<Rightarrow>
          (Some err, emit (EvLog ''hook(c, resp)'' err) w (emit (EvResponseHook i rep (Some err)) w s))
      | (None, w) \<Rightarrow> responseHooks_loop (Suc i) hooks rep (emit (EvResponseHook i rep None) w s))"

text \<open>Lines 226-232: the retry hooks; the first hook that returns true ends the loop.\<close>

fun retryHooks_loop ::
  "nat \<Rightarrow> (Response option \<Rightarrow> error option \<Rightarrow> 'w \<Rightarrow> bool \<times> 'w) list \<Rightarrow> Response option \<Rightarrow> error option \<Rightarrow>
   'w state \<Rightarrow> bool \<times> 'w state" where
  "retryHooks_loop i [] resp err s = (False, s)"
| "retryHooks_loop i (hook # hooks) resp err s =
     (case hook resp err (world s) of
        (True, w) \<Rightarrow> (True, emit (EvRetryHook i resp err True) w s)
      | (False, w) \<Rightarrow> retryHooks_loop (Suc i) hooks resp err (emit (EvRetryHook i resp err False) w s))"

subsection \<open>One attempt: the body of the loop of genReply\<close>

text \<open>Lines 169-173: the breaker of this attempt.\<close>

definition resolvedName :: "'w Cast \<Rightarrow> Request \<Rightarrow> string" where
  "resolvedName c rq =
     (if length (circuitName rq) > 0 then circuitName rq else defaultCircuitName c)"

text \<open>
  Lines 174-181: from the second attempt on, the body is built again and put into
  the transport request.
\<close>

definition rematerialize ::
  "'w collaborators \<Rightarrow> Request \<Rightarrow> int \<Rightarrow> 'w state \<Rightarrow> (failure + Request) \<times> 'w state" where
  "rematerialize x rq count s =
     (if count \<ge> 1 then
        (case ReqBody x rq (world s) of
           (Inl err, w) \<Rightarrow> (Inl (Returned err), emit (EvReqBody (Some err)) w s)
         | (Inr b, w) \<Rightarrow>
             (case rawRequest rq of
                None \<Rightarrow> (Inl Panic, emit (EvReqBody None) w s)
              | Some raw \<Rightarrow>
                  (Inr (rq\<lparr>rawRequest := Some (raw\<lparr>Body := b\<rparr>)\<rparr>), emit (EvReqBody None) w s)))
      else (Inr rq, s))"

text \<open>Lines 185 and 195: \<^verbatim>\<open>c.client.Do(request.rawRequest)\<close>.\<close>

definition clientDo ::
  "'w Cast \<Rightarrow> Request \<Rightarrow> 'w state \<Rightarrow> (failure + http_Response option \<times> error option) \<times> 'w state" where
  "clientDo c rq s =
     (case rawRequest rq of
        None \<Rightarrow> (Inl Panic, s)
      | Some raw \<Rightarrow>
          (case client c raw (world s) of
             ((rawResp, err), w) \<Rightarrow> (Inr (rawResp, err), emit (EvClientDo rawResp err) w s)))"

text \<open>
  Lines 182-196: the transport call, through the breaker when there is one. The
  result is \<^verbatim>\<open>rawResponse\<close>, \<^verbatim>\<open>err\<close> and \<^verbatim>\<open>fallback\<close> as they stand at line 197.
  \<^verbatim>\<open>fallback\<close> is set by the closure only, when the client returned an error.
\<close>

definition transport ::
  "'w Cast \<Rightarrow> 'w collaborators \<Rightarrow> circuit option \<Rightarrow> Request \<Rightarrow> 'w state \<Rightarrow>
   (failure + http_Response option \<times> error option \<times> bool) \<times> 'w state" where
  "transport c x cb rq s =
     (case cb of
        Some b \<Rightarrow>
          (case Execute_admit x b TODO (world s) of
             (Some e, w) \<Rightarrow>
               (Inr (None, Some e, False),
                emit (EvExecuted b (Some e)) w (emit (EvExecute b TODO) w s))
           | (None, w) \<Rightarrow>
               (case clientDo c rq (emit (EvExecute b TODO) w s) of
                  (Inl f, s1) \<Rightarrow> (Inl f, s1)
                | (Inr (rawResp, cerr), s1) \<Rightarrow>
                    (case Execute_result x b TODO cerr (world s1) of
                       (err, w1) \<Rightarrow>
                         (Inr (rawResp, err, cerr \<noteq> None), emit (EvExecuted b err) w1 s1))))
      | None \<Rightarrow>
          (case clientDo c rq s of
             (Inl f, s1) \<Rightarrow> (Inl f, s1)
           | (Inr (rawResp, err), s1) \<Rightarrow> (Inr (rawResp, err, False), s1)))"

text \<open>Lines 198-201: the timestamps of the attempt.\<close>

definition stamp :: "'w collaborators \<Rightarrow> Request \<Rightarrow> 'w state \<Rightarrow> Request \<times> 'w state" where
  "stamp x rq s =
     (case Now x (world s) of
        (t1, w1) \<Rightarrow>
          (case Now x w1 of
             (t2, w2) \<Rightarrow>
               (rq\<lparr>prof := (prof rq)\<lparr>requestDone := t1,
                                      requestCost := t1 - requestStart (prof rq),
                                      receivingDone := t2,
                                      receivingCost := t2 - receivingSart (prof rq)\<rparr>\<rparr>,
                emit EvNow w2 (emit EvNow w1 s))))"

text \<open>
  Lines 203-220: the response of the attempt, and \<^verbatim>\<open>err\<close> as it stands at line
  222. A read or close error is logged and returned by \<^verbatim>\<open>genReply\<close> at once.
\<close>

definition buildResponse ::
  "'w collaborators \<Rightarrow> Request \<Rightarrow> http_Response option \<Rightarrow> error option \<Rightarrow> 'w state \<Rightarrow>
   (error + Response \<times> error option) \<times> 'w state" where
  "buildResponse x rq rawResp err s =
     (let resp = \<lparr>request = rq, rawResponse = rawResp, body = None, statusCode = 0\<rparr> in
      case rawResp of
        None \<Rightarrow> (Inr (resp, err), s)
      | Some raw \<Rightarrow>
          (case ReadAll x raw (world s) of
             (Inl e, w) \<Rightarrow>
               (Inl e, emit (EvLog ''ioutil.ReadAll(rawResponse.Body)'' e) w
                         (emit (EvReadAll raw (Some e)) w s))
           | (Inr repBody, w) \<Rightarrow>
               (case Close x raw w of
                  (Some e, w') \<Rightarrow>
                    (Inl e, emit (EvLog ''rawResponse.Body.Close()'' e) w'
                              (emit (EvClose raw (Some e)) w' (emit (EvReadAll raw None) w s)))
                | (None, w') \<Rightarrow>
                    (Inr (resp\<lparr>body := Some repBody, statusCode := StatusCode raw\<rparr>, None),
                     emit (EvClose raw None) w' (emit (EvReadAll raw None) w s)))))"

text \<open>Line 222: \<^verbatim>\<open>fallback && cb.IsOpen()\<close>; the breaker is asked only when \<^verbatim>\<open>fallback\<close> is set.\<close>

definition breakerOpen ::
  "'w collaborators \<Rightarrow> circuit option \<Rightarrow> bool \<Rightarrow> 'w state \<Rightarrow> bool \<times> 'w state" where
  "breakerOpen x cb fallback s =
     (if fallback then
        (case cb of
           Some b \<Rightarrow> (IsOpen x b (world s), emit (EvIsOpen b (IsOpen x b (world s))) (world s) s)
         | None \<Rightarrow> (False, s))
      else (False, s))"

text \<open>
  How one pass through the loop body ends: \<^verbatim>\<open>continue\<close> and \<^verbatim>\<open>break\<close> with the
  loop's variables \<^verbatim>\<open>request\<close>, \<^verbatim>\<open>err\<close> and \<^verbatim>\<open>resp\<close>, or a \<^verbatim>\<open>return\<close> out of
  \<^verbatim>\<open>genReply\<close>.
\<close>

datatype outcome =
    Continue Request "error option" "Response option"
  | Break "error option" "Response option"
  | Return failure

text \<open>Lines 165-239, entered with \<^verbatim>\<open>count <= c.retry\<close>.\<close>

definition attempt ::
  "'w Cast \<Rightarrow> 'w collaborators \<Rightarrow> Request \<Rightarrow> int \<Rightarrow> 'w state \<Rightarrow> outcome \<times> 'w state" where
  "attempt c x rq count s =
     (let cb = h c (resolvedName c rq) in
      case rematerialize x rq count (emit (EvGetCircuit (resolvedName c rq) cb) (world s) s) of
        (Inl f, s1) \<Rightarrow> (Return f, s1)
      | (Inr rq1, s1) \<Rightarrow>
          (case transport c x cb rq1 s1 of
             (Inl f, s2) \<Rightarrow> (Return f, s2)
           | (Inr (rawResp, terr, fallback), s2) \<Rightarrow>
               (case stamp x rq1 s2 of
                  (rq2, s3) \<Rightarrow>
                    (case buildResponse x rq2 rawResp terr s3 of
                       (Inl e, s4) \<Rightarrow> (Return (Returned e), s4)
                     | (Inr (resp, err), s4) \<Rightarrow>
                         (case breakerOpen x cb fallback s4 of
                            (True, s5) \<Rightarrow> (Break err (Some resp), s5)
                          | (False, s5) \<Rightarrow>
                              (case retryHooks_loop 0 (retryHooks c) (Some resp) err s5 of
                                 (isRetry, s6) \<Rightarrow>
                                   (case stg c of
                                      Some backoff \<Rightarrow>
                                        if isRetry \<and> count + 1 \<le> retry c then
                                          (case backoff (count + 1) (world s6) of
                                             (d, w) \<Rightarrow>
                                               (Continue rq2 err (Some resp),
                                                emit (EvAfter d) (After x d w)
                                                  (emit (EvBackoff (count + 1) d) w s6)))
                                        else (Break err (Some resp), s6)
                                    | None \<Rightarrow> (Break err (Some resp), s6))))))))"

subsection \<open>genReply and Do\<close>

text \<open>Lines 161-240: the loop, from the test at its head.\<close>

function genReply_loop ::
  "'w Cast \<Rightarrow> 'w collaborators \<Rightarrow> Request \<Rightarrow> int \<Rightarrow> error option \<Rightarrow> Response option \<Rightarrow> 'w state \<Rightarrow>
   (failure + error option \<times> Response option) \<times> 'w state" where
  "genReply_loop c x rq count err resp s =
     (if count > retry c then (Inr (err, resp), s)
      else
        (case attempt c x rq count s of
           (Continue rq' err' resp', s') \<Rightarrow> genReply_loop c x rq' (count + 1) err' resp' s'
         | (Break err' resp', s') \<Rightarrow> (Inr (err', resp'), s')
         | (Return f, s') \<Rightarrow> (Inl f, s')))"
  by pat_completeness auto
termination
  by (relation "measure (\<lambda>(c, x, rq, count, err, resp, s). nat (retry c + 1 - count))") auto

declare genReply_loop.simps [simp del]

text \<open>Lines 154-248.\<close>

definition genReply ::
  "'w Cast \<Rightarrow> 'w collaborators \<Rightarrow> Request \<Rightarrow> 'w state \<Rightarrow> (failure + Response option) \<times> 'w state" where
  "genReply c x rq s =
     (case genReply_loop c x rq 0 None None s of
        (Inl f, s') \<Rightarrow> (Inl f, s')
      | (Inr (Some err, resp), s') \<Rightarrow>
          (Inl (Returned err), emit (EvLog ''c.client.Do'' err) (world s') s')
      | (Inr (None, resp), s') \<Rightarrow> (Inr resp, s'))"

text \<open>Lines 112-152.\<close>

definition Do ::
  "'w Cast \<Rightarrow> 'w collaborators \<Rightarrow> Context \<Rightarrow> Request \<Rightarrow> 'w state \<Rightarrow> (failure + Response option) \<times> 'w state" where
  "Do c x ctx rq s =
     (case ReqBody x rq (world s) of
        (Inl err, w) \<Rightarrow>
          (Inl (Returned err),
           emit (EvLog ''request.reqBody'' err) w (emit (EvReqBody (Some err)) w s))
      | (Inr b, w) \<Rightarrow>
          (case requestHooks_loop EvBeforeRequestHook 0 (beforeRequestHooks c) rq
                  (emit (EvReqBody None) w s) of
             (Inl err, s1) \<Rightarrow> (Inl (Returned err), s1)
           | (Inr rq1, s1) \<Rightarrow>
               (case NewRequestWithContext x ctx (httpMethod rq1) (baseURL c @ path rq1) b of
                  Inl err \<Rightarrow>
                    (Inl (Returned err),
                     emit (EvLog ''http.NewRequest'' err) (world s1)
                       (emit (EvNewRequest ctx (httpMethod rq1) (baseURL c @ path rq1) b) (world s1) s1))
                | Inr raw \<Rightarrow>
                    (case requestHooks_loop EvRequestHook 0 (requestHooks c)
                            (rq1\<lparr>rawRequest := Some raw\<rparr>)
                            (emit (EvNewRequest ctx (httpMethod rq1) (baseURL c @ path rq1) b) (world s1) s1) of
                       (Inl err, s2) \<Rightarrow> (Inl (Returned err), s2)
                     | (Inr rq2, s2) \<Rightarrow>
                         (case genReply c x rq2 s2 of
                            (Inl f, s3) \<Rightarrow> (Inl f, s3)
                          | (Inr rep, s3) \<Rightarrow>
                              (case responseHooks_loop 0 (responseHooks c) rep s3 of
                                 (Some err, s4) \<Rightarrow> (Inl (Returned err), s4)
                               | (None, s4) \<Rightarrow> (Inr rep, s4)))))))"

subsection \<open>Kinds of events\<close>

text \<open>The events of the attempt loop: everything \<^verbatim>\<open>genReply\<close> does.\<close>

fun loopEvent :: "event \<Rightarrow> bool" where
  "loopEvent (EvBeforeRequestHook k r) = False"
| "loopEvent (EvRequestHook k r) = False"
| "loopEvent (EvResponseHook k rep r) = False"
| "loopEvent (EvNewRequest ctx m u b) = False"
| "loopEvent e = True"

fun isResponseHook :: "event \<Rightarrow> bool" where
  "isResponseHook (EvResponseHook k rep r) = True"
| "isResponseHook e = False"

text \<open>
  An attempt of the loop begins with the lookup of its breaker (line 170 or 172);
  a transport attempt is a call of \<^verbatim>\<open>c.client.Do\<close>.
\<close>

fun isGetCircuit :: "event \<Rightarrow> bool" where
  "isGetCircuit (EvGetCircuit name cb) = True"
| "isGetCircuit e = False"

fun isClientDo :: "event \<Rightarrow> bool" where
  "isClientDo (EvClientDo rawResp err) = True"
| "isClientDo e = False"

fun isContinue :: "outcome \<Rightarrow> bool" where
  "isContinue (Continue rq err resp) = True"
| "isContinue out = False"

text \<open>
  The events of a hook chain of \<open>n\<close> hooks that voted against a retry, followed, when
  \<open>v\<close> holds, by one that voted for it; and the events of reading and closing the
  body of a raw response, when there is one.
\<close>

definition votes :: "Response option \<Rightarrow> error option \<Rightarrow> nat \<Rightarrow> bool \<Rightarrow> event list" where
  "votes resp err n v =
     map (\<lambda>j. EvRetryHook j resp err False) [0..<n] @
     (if v then [EvRetryHook n resp err True] else [])"

definition readEvents :: "http_Response option \<Rightarrow> event list" where
  "readEvents rawResp =
     (case rawResp of None \<Rightarrow> [] | Some raw \<Rightarrow> [EvReadAll raw None, EvClose raw None])"

text \<open>
  The events that only an attempt of the loop emits (\<^verbatim>\<open>ReqBody\<close> is also called at
  the head of \<^verbatim>\<open>Do\<close>, and errors are logged everywhere).
\<close>

fun attemptEvent :: "event \<Rightarrow> bool" where
  "attemptEvent (EvReqBody r) = False"
| "attemptEvent (EvLog msg e) = False"
| "attemptEvent e = loopEvent e"

fun isIsOpen :: "event \<Rightarrow> bool" where
  "isIsOpen (EvIsOpen b v) = True"
| "isIsOpen e = False"

fun isRetryHook :: "event \<Rightarrow> bool" where
  "isRetryHook (EvRetryHook k resp err v) = True"
| "isRetryHook e = False"

subsection \<open>Example configurations\<close>

text \<open>
  Concrete collaborators and clients, used to run the definitions. The world is the
  number of transport calls made so far.
\<close>

definition plain :: "nat collaborators" where
  "plain =
     \<lparr>ReqBody = (\<lambda>rq w. (Inr [], w)),
      NewRequestWithContext = (\<lambda>ctx m u b. Inr \<lparr>Ctx = ctx, Method = m, URL = u, Body = b\<rparr>),
      Execute_admit = (\<lambda>b ctx w. (None, w)),
      Execute_result = (\<lambda>b ctx r w. (r, w)),
      IsOpen = (\<lambda>b w. False),
      ReadAll = (\<lambda>raw w. (Inr [], w)),
      Close = (\<lambda>raw w. (None, w)),
      Now = (\<lambda>w. (0, w)),
      After = (\<lambda>d w. w)\<rparr>"

definition noBody :: "nat collaborators" where
  "noBody = plain\<lparr>ReqBody := (\<lambda>rq w. (Inl (Error ''marshal''), w))\<rparr>"

definition ping :: Request where
  "ping =
     \<lparr>httpMethod = ''GET'', path = ''/ping'', circuitName = [], rawRequest = None,
      prof = \<lparr>requestStart = 0, requestDone = 0, requestCost = 0,
              receivingSart = 0, receivingDone = 0, receivingCost = 0\<rparr>\<rparr>"

definition ok200 :: "http_Request \<Rightarrow> nat \<Rightarrow> (http_Response option \<times> error option) \<times> nat" where
  "ok200 raw w = ((Some \<lparr>StatusCode = 200, BodyStream = w\<rparr>, None), Suc w)"

definition bare :: "nat Cast" where
  "bare =
     \<lparr>client = ok200, baseURL = ''http://host'', retry = 0, stg = None,
      beforeRequestHooks = [], requestHooks = [], responseHooks = [], retryHooks = [],
      h = (\<lambda>name. None), defaultCircuitName = []\<rparr>"

text \<open>Hooks that pass and hooks that refuse, and clients whose chains hold them.\<close>

definition passHook :: "Request \<Rightarrow> nat \<Rightarrow> (error option \<times> Request) \<times> nat" where
  "passHook rq w = ((None, rq), w)"

definition failHook :: "error \<Rightarrow> Request \<Rightarrow> nat \<Rightarrow> (error option \<times> Request) \<times> nat" where
  "failHook e rq w = ((Some e, rq), w)"

definition failResponseHook :: "error \<Rightarrow> Response option \<Rightarrow> nat \<Rightarrow> error option \<times> nat" where
  "failResponseHook e rep w = (Some e, w)"

definition passResponseHook :: "Response option \<Rightarrow> nat \<Rightarrow> error option \<times> nat" where
  "passResponseHook rep w = (None, w)"

definition beforeDenies :: "nat Cast" where
  "beforeDenies = bare\<lparr>beforeRequestHooks := [passHook, failHook (Error ''denied''), passHook]\<rparr>"

definition requestDenies :: "nat Cast" where
  "requestDenies = bare\<lparr>beforeRequestHooks := [passHook],
                        requestHooks := [passHook, failHook (Error ''no token''), passHook]\<rparr>"

definition responseDenies :: "nat Cast" where
  "responseDenies = bare\<lparr>responseHooks := [passResponseHook, failResponseHook (Error ''bad reply''),
                                            passResponseHook]\<rparr>"

text \<open>What \<open>bare\<close> answers to \<open>ping\<close> under the context \<open>ctx\<close>.\<close>

definition pong :: "Context \<Rightarrow> Response" where
  "pong ctx =
     \<lparr>request = ping\<lparr>rawRequest := Some \<lparr>Ctx = ctx, Method = ''GET'',
                                           URL = ''http://host/ping'', Body = []\<rparr>\<rparr>,
      rawResponse = Some \<lparr>StatusCode = 200, BodyStream = 0\<rparr>,
      body = Some [], statusCode = 200\<rparr>"

text \<open>
  The scenario of the specification: the server answers 500, 500 and then 200, the
  retry hook votes for a retry on status 500, two retries are allowed and the backoff
  is zero.
\<close>

definition flaky :: "http_Request \<Rightarrow> nat \<Rightarrow> (http_Response option \<times> error option) \<times> nat" where
  "flaky raw w = ((Some \<lparr>StatusCode = (if w < 2 then 500 else 200), BodyStream = w\<rparr>, None), Suc w)"

definition retryOn500 :: "Response option \<Rightarrow> error option \<Rightarrow> nat \<Rightarrow> bool \<times> nat" where
  "retryOn500 resp err w = ((case resp of Some r \<Rightarrow> statusCode r = 500 | None \<Rightarrow> False), w)"

definition noWait :: "int \<Rightarrow> nat \<Rightarrow> int \<times> nat" where
  "noWait n w = (0, w)"

definition retrying :: "nat Cast" where
  "retrying = bare\<lparr>client := flaky, retry := 2, stg := Some noWait, retryHooks := [retryOn500]\<rparr>"

text \<open>
  Clients with a breaker registered under the default circuit name, and a breaker
  that reports itself open whenever it is asked while it still lets calls through
  (as a breaker does for its trial calls).
\<close>

definition guarded :: "nat Cast" where
  "guarded = bare\<lparr>h := (\<lambda>name. if name = ''svc'' then Some (Circuit 1) else None),
                   defaultCircuitName := ''svc''\<rparr>"

definition guardedRetrying :: "nat Cast" where
  "guardedRetrying = retrying\<lparr>h := (\<lambda>name. if name = ''svc'' then Some (Circuit 1) else None),
                              defaultCircuitName := ''svc''\<rparr>"

definition tripped :: "nat collaborators" where
  "tripped = plain\<lparr>IsOpen := (\<lambda>b w. True)\<rparr>"

text \<open>Bodies that cannot be read or closed; a server that cannot be reached.\<close>

definition unreadable :: "nat collaborators" where
  "unreadable = plain\<lparr>ReadAll := (\<lambda>raw w. (Inl (Error ''reset''), w))\<rparr>"

definition unclosable :: "nat collaborators" where
  "unclosable = plain\<lparr>Close := (\<lambda>raw w. (Some (Error ''close''), w))\<rparr>"

definition unreachable :: "http_Request \<Rightarrow> nat \<Rightarrow> (http_Response option \<times> error option) \<times> nat" where
  "unreachable raw w = ((None, Some (Error ''refused'')), Suc w)"

definition retryAlways :: "Response option \<Rightarrow> error option \<Rightarrow> nat \<Rightarrow> bool \<times> nat" where
  "retryAlways resp err w = (True, w)"

definition guardedUnreachable :: "nat Cast" where
  "guardedUnreachable = guardedRetrying\<lparr>client := unreachable, retry := 5, retryHooks := [retryAlways]\<rparr>"

text \<open>A chain of two retry hooks, and the responses of the flaky server.\<close>

definition retryNever :: "Response option \<Rightarrow> error option \<Rightarrow> nat \<Rightarrow> bool \<times> nat" where
  "retryNever resp err w = (False, w)"

definition twoHooks :: "nat Cast" where
  "twoHooks = retrying\<lparr>retryHooks := [retryNever, retryOn500]\<rparr>"

definition reply :: "int \<Rightarrow> nat \<Rightarrow> Response" where
  "reply st n = (pong Background)\<lparr>rawResponse := Some \<lparr>StatusCode = st, BodyStream = n\<rparr>,
                                   statusCode := st\<rparr>"

text \<open>A request that names a circuit of its own, and the response to a failed transport call.\<close>

definition pingPay :: Request where
  "pingPay = (request (pong Background))\<lparr>circuitName := ''pay''\<rparr>"

definition noReply :: Response where
  "noReply = \<lparr>request = request (pong Background), rawResponse = None, body = None, statusCode = 0\<rparr>"

definition unreachableRetrying :: "nat Cast" where
  "unreachableRetrying = retrying\<lparr>client := unreachable, retryHooks := [retryAlways]\<rparr>"

section \<open>Properties\<close>

subsection \<open>Traces\<close>

lemma emit_simps [simp]: "world (emit e w s) = w" "trace (emit e w s) = trace s @ [e]"
  by (simp_all add: emit_def)

lemma start_simps [simp]: "world (start w) = w" "trace (start w) = []"
  by (simp_all add: start_def)

lemma unique_split:
  "ys @ x # zs = pre @ x # post \<Longrightarrow> x \<notin> set ys \<Longrightarrow> x \<notin> set zs \<Longrightarrow> pre = ys \<and> post = zs"
  by (simp add: append_Cons_eq_iff)

lemma loopEvent_notin: "list_all loopEvent evs \<Longrightarrow> \<not> loopEvent e \<Longrightarrow> e \<notin> set evs"
  by (auto simp: list_all_iff)

text \<open>The attempt loop emits loop events only.\<close>

lemma rematerialize_events:
  "rematerialize x rq count s = (r, s') \<Longrightarrow> \<exists>evs. trace s' = trace s @ evs \<and> list_all loopEvent evs"
  by (auto simp: rematerialize_def split: if_splits prod.splits sum.splits option.splits)

lemma clientDo_events:
  "clientDo c rq s = (r, s') \<Longrightarrow> \<exists>evs. trace s' = trace s @ evs \<and> list_all loopEvent evs"
  by (auto simp: clientDo_def split: if_splits prod.splits sum.splits option.splits)

lemma transport_events:
  "transport c x cb rq s = (r, s') \<Longrightarrow> \<exists>evs. trace s' = trace s @ evs \<and> list_all loopEvent evs"
  by (auto simp: transport_def split: if_splits prod.splits sum.splits option.splits dest!: clientDo_events)

lemma stamp_events:
  "stamp x rq s = (r, s') \<Longrightarrow> \<exists>evs. trace s' = trace s @ evs \<and> list_all loopEvent evs"
  by (auto simp: stamp_def split: if_splits prod.splits sum.splits option.splits)

lemma buildResponse_events:
  "buildResponse x rq rr err s = (r, s') \<Longrightarrow> \<exists>evs. trace s' = trace s @ evs \<and> list_all loopEvent evs"
  by (auto simp: buildResponse_def Let_def split: if_splits prod.splits sum.splits option.splits)

lemma breakerOpen_events:
  "breakerOpen x cb fb s = (r, s') \<Longrightarrow> \<exists>evs. trace s' = trace s @ evs \<and> list_all loopEvent evs"
  by (auto simp: breakerOpen_def Let_def split: if_splits prod.splits sum.splits option.splits)

lemma retryHooks_loop_events:
  "retryHooks_loop i hooks resp err s = (r, s') \<Longrightarrow> \<exists>evs. trace s' = trace s @ evs \<and> list_all loopEvent evs"
proof (induction hooks arbitrary: i s)
  case Nil
  then show ?case by simp
next
  case (Cons hook hooks)
  obtain v w where hk: "hook resp err (world s) = (v, w)" by (cases "hook resp err (world s)")
  show ?case
  proof (cases v)
    case True
    with hk Cons.prems show ?thesis by auto
  next
    case False
    with hk Cons.prems
    have "retryHooks_loop (Suc i) hooks resp err (emit (EvRetryHook i resp err False) w s) = (r, s')"
      by simp
    from Cons.IH [OF this] show ?thesis by auto
  qed
qed

lemma attempt_events:
  assumes "attempt c x rq count s = (out, s')"
  shows "\<exists>evs. trace s' = trace s @ evs \<and> list_all loopEvent evs"
  using assms unfolding attempt_def Let_def
  by (auto split: prod.splits sum.splits option.splits bool.splits if_splits
      dest!: rematerialize_events transport_events stamp_events buildResponse_events breakerOpen_events retryHooks_loop_events)


lemma genReply_loop_events:
  "genReply_loop c x rq count err resp s = (r, s') \<Longrightarrow>
   \<exists>evs. trace s' = trace s @ evs \<and> list_all loopEvent evs"
proof (induction c x rq count err resp s rule: genReply_loop.induct)
  case (1 c x rq count err resp s)
  show ?case
  proof (cases "count > retry c")
    case True
    with "1.prems" show ?thesis by (simp add: genReply_loop.simps)
  next
    case False
    obtain out s1 where att: "attempt c x rq count s = (out, s1)"
      by (cases "attempt c x rq count s")
    from attempt_events [OF att] obtain evs1 where
      e1: "trace s1 = trace s @ evs1" "list_all loopEvent evs1" by blast
    show ?thesis
    proof (cases out)
      case (Continue rq' err' resp')
      with False att "1.prems"
      have rec: "genReply_loop c x rq' (count + 1) err' resp' s1 = (r, s')"
        by (simp add: genReply_loop.simps [of c x rq count])
      from "1.IH" [OF False att [symmetric] Continue rec] e1
      show ?thesis by auto
    next
      case (Break err' resp')
      with False att "1.prems" e1 show ?thesis
        by (auto simp: genReply_loop.simps [of c x rq count])
    next
      case (Return f)
      with False att "1.prems" e1 show ?thesis
        by (auto simp: genReply_loop.simps [of c x rq count])
    qed
  qed
qed

lemma genReply_events:
  "genReply c x rq s = (r, s') \<Longrightarrow> \<exists>evs. trace s' = trace s @ evs \<and> list_all loopEvent evs"
  unfolding genReply_def
  by (auto split: prod.splits sum.splits option.splits dest!: genReply_loop_events)


text \<open>The trace of a hook chain: the hooks in order, up to the first error.\<close>

lemma requestHooks_loop_trace:
  "requestHooks_loop ev i hooks rq s = (r, s') \<Longrightarrow>
   (case r of
      Inr _ \<Rightarrow> trace s' = trace s @ map (\<lambda>j. ev j None) [i..<i + length hooks]
    | Inl e \<Rightarrow> (\<exists>k<length hooks. trace s' = trace s @ map (\<lambda>j. ev j None) [i..<i + k] @ [ev (i + k) (Some e)]))"
proof (induction hooks arbitrary: i rq s)
  case Nil
  then show ?case by auto
next
  case (Cons hook hooks)
  obtain oe rq' w where hk: "hook rq (world s) = ((oe, rq'), w)"
    by (metis prod.exhaust)
  show ?case
  proof (cases oe)
    case None
    with hk Cons.prems
    have rec: "requestHooks_loop ev (Suc i) hooks rq' (emit (ev i None) w s) = (r, s')"
      by simp
    from Cons.IH [OF rec] show ?thesis
      by (cases r) (auto simp add: upt_conv_Cons simp del: upt_Suc)
  next
    case (Some e)
    with hk Cons.prems have "r = Inl e" "trace s' = trace s @ [ev i (Some e)]"
      by auto
    then show ?thesis
      by (auto intro!: exI [of _ 0])
  qed
qed

lemma responseHooks_loop_trace:
  "responseHooks_loop i hooks rep s = (r, s') \<Longrightarrow>
   (case r of
      None \<Rightarrow> trace s' = trace s @ map (\<lambda>j. EvResponseHook j rep None) [i..<i + length hooks]
    | Some e \<Rightarrow> (\<exists>k<length hooks. trace s' = trace s @ map (\<lambda>j. EvResponseHook j rep None) [i..<i + k] @
          [EvResponseHook (i + k) rep (Some e), EvLog ''hook(c, resp)'' e]))"
proof (induction hooks arbitrary: i s)
  case Nil
  then show ?case by auto
next
  case (Cons hook hooks)
  obtain oe w where hk: "hook rep (world s) = (oe, w)"
    by (metis prod.exhaust)
  show ?case
  proof (cases oe)
    case None
    with hk Cons.prems
    have rec: "responseHooks_loop (Suc i) hooks rep (emit (EvResponseHook i rep None) w s) = (r, s')"
      by simp
    from Cons.IH [OF rec] show ?thesis
      by (cases r) (auto simp add: upt_conv_Cons simp del: upt_Suc)
  next
    case (Some e)
    with hk Cons.prems have "r = Some e"
      "trace s' = trace s @ [EvResponseHook i rep (Some e), EvLog ''hook(c, resp)'' e]"
      by auto
    then show ?thesis
      by (auto intro!: exI [of _ 0])
  qed
qed

text \<open>The ways through \<^verbatim>\<open>Do\<close>, each with its result and its trace.\<close>

lemma Do_cases [consumes 1, case_names ReqBody Before NewRequest RequestHook Loop]:
  assumes run: "Do c x ctx rq (start w) = (res, s')"
  obtains
    (ReqBody) e where "res = Inl (Returned e)"
      "trace s' = [EvReqBody (Some e), EvLog ''request.reqBody'' e]"
  | (Before) k e where "res = Inl (Returned e)" "k < length (beforeRequestHooks c)"
      "trace s' = EvReqBody None # map (\<lambda>j. EvBeforeRequestHook j None) [0..<k] @
                 [EvBeforeRequestHook k (Some e)]"
  | (NewRequest) m u b e where "res = Inl (Returned e)"
      "trace s' = EvReqBody None #
                 map (\<lambda>j. EvBeforeRequestHook j None) [0..<length (beforeRequestHooks c)] @
                 [EvNewRequest ctx m u b, EvLog ''http.NewRequest'' e]"
  | (RequestHook) m u b k e where "res = Inl (Returned e)" "k < length (requestHooks c)"
      "trace s' = EvReqBody None #
                 map (\<lambda>j. EvBeforeRequestHook j None) [0..<length (beforeRequestHooks c)] @
                 EvNewRequest ctx m u b # map (\<lambda>j. EvRequestHook j None) [0..<k] @
                 [EvRequestHook k (Some e)]"
  | (Loop) m u b rq2 s2 gr s3 tail where
      "trace s2 = EvReqBody None #
                 map (\<lambda>j. EvBeforeRequestHook j None) [0..<length (beforeRequestHooks c)] @
                 EvNewRequest ctx m u b #
                 map (\<lambda>j. EvRequestHook j None) [0..<length (requestHooks c)]"
      "genReply c x rq2 s2 = (gr, s3)"
      "trace s' = trace s3 @ tail"
      "(\<exists>f. gr = Inl f \<and> res = Inl f \<and> tail = []) \<or>
       (\<exists>rep k e. gr = Inr rep \<and> res = Inl (Returned e) \<and> k < length (responseHooks c) \<and>
          tail = map (\<lambda>j. EvResponseHook j rep None) [0..<k] @
                 [EvResponseHook k rep (Some e), EvLog ''hook(c, resp)'' e]) \<or>
       (\<exists>rep. gr = Inr rep \<and> res = Inr rep \<and>
          tail = map (\<lambda>j. EvResponseHook j rep None) [0..<length (responseHooks c)])"
proof -
  obtain rb w1 where rb: "ReqBody x rq w = (rb, w1)" by (cases "ReqBody x rq w")
  show thesis
  proof (cases rb)
    case (Inl e)
    with rb run ReqBody show ?thesis by (auto simp: Do_def)
  next
    case (Inr b)
    obtain bh s1 where bh: "requestHooks_loop EvBeforeRequestHook 0 (beforeRequestHooks c) rq
        (emit (EvReqBody None) w1 (start w)) = (bh, s1)"
      by (metis prod.exhaust)
    note bt = requestHooks_loop_trace [OF bh]
    show ?thesis
    proof (cases bh)
      case (Inl e)
      with rb Inr bh bt run Before show ?thesis by (auto simp: Do_def)
    next
      case (Inr rq1)
      note rq1 = this
      with bt have t1: "trace s1 = EvReqBody None #
          map (\<lambda>j. EvBeforeRequestHook j None) [0..<length (beforeRequestHooks c)]"
        by simp
      let ?ev = "EvNewRequest ctx (httpMethod rq1) (baseURL c @ path rq1) b"
      show ?thesis
      proof (cases "NewRequestWithContext x ctx (httpMethod rq1) (baseURL c @ path rq1) b")
        case (Inl e)
        with rb \<open>rb = Inr b\<close> bh rq1 t1 run have "res = Inl (Returned e)"
          "trace s' = EvReqBody None #
                 map (\<lambda>j. EvBeforeRequestHook j None) [0..<length (beforeRequestHooks c)] @
                 [?ev, EvLog ''http.NewRequest'' e]"
          by (auto simp: Do_def)
        then show ?thesis by (rule NewRequest)
      next
        case (Inr raw)
        note raw = this
        obtain rh s2 where rh: "requestHooks_loop EvRequestHook 0 (requestHooks c)
            (rq1\<lparr>rawRequest := Some raw\<rparr>) (emit ?ev (world s1) s1) = (rh, s2)"
          by (metis prod.exhaust)
        note rt = requestHooks_loop_trace [OF rh]
        show ?thesis
        proof (cases rh)
          case (Inl e)
          with rt obtain k where k: "k < length (requestHooks c)"
            "trace s2 = trace s1 @ ?ev # map (\<lambda>j. EvRequestHook j None) [0..<k] @ [EvRequestHook k (Some e)]"
            by auto
          from Inl rb \<open>rb = Inr b\<close> bh rq1 raw rh run have "res = Inl (Returned e)" "s' = s2"
            by (auto simp: Do_def)
          with k t1 show ?thesis by (intro RequestHook [of e k]) auto
        next
          case (Inr rq2)
          note rq2 = this
          with rt t1 have t2: "trace s2 = EvReqBody None #
                 map (\<lambda>j. EvBeforeRequestHook j None) [0..<length (beforeRequestHooks c)] @
                 ?ev # map (\<lambda>j. EvRequestHook j None) [0..<length (requestHooks c)]"
            by simp
          obtain gr s3 where gr: "genReply c x rq2 s2 = (gr, s3)" by (metis prod.exhaust)
          show ?thesis
          proof (cases gr)
            case (Inl f)
            with rb \<open>rb = Inr b\<close> bh rq1 raw rh rq2 gr run have "res = Inl f" "s' = s3"
              by (auto simp: Do_def)
            with t2 gr Inl show ?thesis by (intro Loop [of s2 _ _ _ rq2 gr s3 "[]"]) auto
          next
            case (Inr rep)
            note rep = this
            obtain ph s4 where ph: "responseHooks_loop 0 (responseHooks c) rep s3 = (ph, s4)"
              by (metis prod.exhaust)
            note pt = responseHooks_loop_trace [OF ph]
            from rb \<open>rb = Inr b\<close> bh rq1 raw rh rq2 gr rep ph run
            have res: "res = (case ph of Some e \<Rightarrow> Inl (Returned e) | None \<Rightarrow> Inr rep)" "s' = s4"
              by (auto simp: Do_def split: option.splits)
            show ?thesis
            proof (cases ph)
              case None
              with pt res t2 gr rep show ?thesis
                by (intro Loop [of s2 _ _ _ rq2 gr s3
                      "map (\<lambda>j. EvResponseHook j rep None) [0..<length (responseHooks c)]"]) auto
            next
              case (Some e)
              with pt obtain k where k: "k < length (responseHooks c)"
                "trace s4 = trace s3 @ map (\<lambda>j. EvResponseHook j rep None) [0..<k] @
                   [EvResponseHook k rep (Some e), EvLog ''hook(c, resp)'' e]"
                by auto
              with Some res t2 gr rep show ?thesis
                by (intro Loop [of s2 _ _ _ rq2 gr s3
                      "map (\<lambda>j. EvResponseHook j rep None) [0..<k] @
                       [EvResponseHook k rep (Some e), EvLog ''hook(c, resp)'' e]"]) auto
            qed
          qed
        qed
      qed
    qed
  qed
qed

text \<open>Induction over the runs of the loop, one attempt at a time.\<close>

lemma genReply_loop_induct [consumes 1, case_names Exit Break Return Continue]:
  assumes run: "genReply_loop c x rq count err resp s = (r, s')"
    and exit: "\<And>rq count err resp s. retry c < count \<Longrightarrow> P rq count err resp s (Inr (err, resp)) s"
    and brk: "\<And>rq count err resp s err' resp' s1.
        count \<le> retry c \<Longrightarrow> attempt c x rq count s = (Break err' resp', s1) \<Longrightarrow>
        P rq count err resp s (Inr (err', resp')) s1"
    and ret: "\<And>rq count err resp s f s1.
        count \<le> retry c \<Longrightarrow> attempt c x rq count s = (Return f, s1) \<Longrightarrow>
        P rq count err resp s (Inl f) s1"
    and cont: "\<And>rq count err resp s rq' err' resp' s1 r s'.
        count \<le> retry c \<Longrightarrow> attempt c x rq count s = (Continue rq' err' resp', s1) \<Longrightarrow>
        genReply_loop c x rq' (count + 1) err' resp' s1 = (r, s') \<Longrightarrow>
        P rq' (count + 1) err' resp' s1 r s' \<Longrightarrow> P rq count err resp s r s'"
  shows "P rq count err resp s r s'"
  using run
proof (induction "nat (retry c + 1 - count)" arbitrary: rq count err resp s)
  case 0
  then have "retry c < count" by simp
  with "0.prems" show ?case by (auto simp: genReply_loop.simps exit)
next
  case (Suc n)
  then have False: "\<not> retry c < count" and n: "n = nat (retry c + 1 - (count + 1))" by auto
  show ?case
  proof -
    obtain out s1 where att: "attempt c x rq count s = (out, s1)"
      by (cases "attempt c x rq count s")
    show ?thesis
    proof (cases out)
      case (Continue rq' err' resp')
      with False att Suc.prems
      have rec: "genReply_loop c x rq' (count + 1) err' resp' s1 = (r, s')"
        by (simp add: genReply_loop.simps [of c x rq count])
      from Suc.hyps(1) [OF n rec]
      have "P rq' (count + 1) err' resp' s1 r s'" .
      with False att Continue rec show ?thesis by (intro cont [of count rq s rq' err' resp' s1]) auto
    next
      case (Break err' resp')
      with False att Suc.prems have "r = Inr (err', resp')" "s' = s1"
        by (auto simp: genReply_loop.simps [of c x rq count])
      with False att Break show ?thesis using brk [of count rq s err' resp' s1] by simp
    next
      case (Return f)
      with False att Suc.prems have "r = Inl f" "s' = s1"
        by (auto simp: genReply_loop.simps [of c x rq count])
      with False att Return show ?thesis using ret [of count rq s f s1] by simp
    qed
  qed
qed


lemma retryHooks_loop_trace:
  "retryHooks_loop i hooks resp err s = (v, s') \<Longrightarrow>
   \<exists>n. trace s' = trace s @ map (\<lambda>j. EvRetryHook j resp err False) [i..<i + n] @
          (if v then [EvRetryHook (i + n) resp err True] else []) \<and>
       (if v then n < length hooks else n = length hooks)"
proof (induction hooks arbitrary: i s)
  case Nil
  then show ?case by auto
next
  case (Cons hook hooks)
  obtain b w where hk: "hook resp err (world s) = (b, w)" by (cases "hook resp err (world s)")
  show ?case
  proof (cases b)
    case True
    with hk Cons.prems have "v" "trace s' = trace s @ [EvRetryHook i resp err True]" by auto
    then show ?thesis by (intro exI [of _ 0]) simp
  next
    case False
    with hk Cons.prems
    have "retryHooks_loop (Suc i) hooks resp err (emit (EvRetryHook i resp err False) w s) = (v, s')"
      by simp
    from Cons.IH [OF this] obtain n where
      n: "trace s' = trace s @ EvRetryHook i resp err False #
            map (\<lambda>j. EvRetryHook j resp err False) [Suc i..<Suc i + n] @
            (if v then [EvRetryHook (Suc i + n) resp err True] else [])"
         "if v then n < length hooks else n = length hooks"
      by auto
    show ?thesis
      using n by (intro exI [of _ "Suc n"]) (auto simp add: upt_conv_Cons simp del: upt_Suc)
  qed
qed

lemma retryHooks_loop_filter:
  assumes "retryHooks_loop i hooks resp err s = (v, s')"
    and "\<And>k r e b. \<not> P (EvRetryHook k r e b)"
  shows "filter P (trace s') = filter P (trace s)"
proof -
  from retryHooks_loop_trace [OF assms(1)] obtain n where
    "trace s' = trace s @ map (\<lambda>j. EvRetryHook j resp err False) [i..<i + n] @
          (if v then [EvRetryHook (i + n) resp err True] else [])" by blast
  then show ?thesis by (simp add: assms(2) filter_map comp_def)
qed

subsection \<open>The ways through one attempt\<close>

text \<open>
  Each step of the loop body, and then the body as a whole, with the outcome and the
  events of every path through it.
\<close>

lemma rematerialize_cases [consumes 1, case_names Skip Error Panic Body]:
  assumes "rematerialize x rq count s = (r, s')"
  obtains
    (Skip) "count < 1" "r = Inr rq" "s' = s"
  | (Error) e where "1 \<le> count" "r = Inl (Returned e)" "trace s' = trace s @ [EvReqBody (Some e)]"
  | (Panic) "1 \<le> count" "rawRequest rq = None" "r = Inl Panic" "trace s' = trace s @ [EvReqBody None]"
  | (Body) raw b where "1 \<le> count" "rawRequest rq = Some raw"
      "r = Inr (rq\<lparr>rawRequest := Some (raw\<lparr>Body := b\<rparr>)\<rparr>)" "trace s' = trace s @ [EvReqBody None]"
  using assms
  by (auto simp: rematerialize_def split: if_splits prod.splits sum.splits option.splits)

lemma transport_cases [consumes 1, case_names NotSent Sent]:
  assumes "transport c x cb rq s = (r, s')"
  obtains
    (NotSent) T where "r = Inl Panic" "trace s' = trace s @ T"
      "T = [] \<or> (\<exists>b. cb = Some b \<and> T = [EvExecute b TODO])"
  | (Sent) T rr err0 fb where "r = Inr (rr, err0, fb)" "trace s' = trace s @ T"
      "(cb = None \<and> T = [EvClientDo rr err0] \<and> \<not> fb) \<or>
       (\<exists>b. cb = Some b \<and> T = [EvExecute b TODO, EvExecuted b err0] \<and> rr = None \<and> err0 \<noteq> None \<and> \<not> fb) \<or>
       (\<exists>b. cb = Some b \<and> T = [EvExecute b TODO, EvClientDo rr None, EvExecuted b err0] \<and> \<not> fb) \<or>
       (\<exists>b ce. cb = Some b \<and> T = [EvExecute b TODO, EvClientDo rr (Some ce), EvExecuted b err0] \<and> fb)"
proof (cases cb)
  case None
  show ?thesis
  proof (cases "rawRequest rq")
    case rn: None
    with None assms have "r = Inl Panic" "s' = s" by (auto simp: transport_def clientDo_def)
    then show ?thesis by (intro NotSent [of "[]"]) auto
  next
    case (Some raw)
    obtain rr err w where cl: "client c raw (world s) = ((rr, err), w)" by (metis prod.exhaust)
    with None Some assms have "r = Inr (rr, err, False)" "trace s' = trace s @ [EvClientDo rr err]"
      by (auto simp: transport_def clientDo_def)
    with None show ?thesis by (intro Sent [of rr err False "[EvClientDo rr err]"]) auto
  qed
next
  case (Some b)
  obtain adm w where ad: "Execute_admit x b TODO (world s) = (adm, w)" by (metis prod.exhaust)
  show ?thesis
  proof (cases adm)
    case (Some e)
    with \<open>cb = Some b\<close> ad assms have "r = Inr (None, Some e, False)"
      "trace s' = trace s @ [EvExecute b TODO, EvExecuted b (Some e)]"
      by (auto simp: transport_def)
    with \<open>cb = Some b\<close> show ?thesis
      by (intro Sent [of None "Some e" False "[EvExecute b TODO, EvExecuted b (Some e)]"]) auto
  next
    case None
    show ?thesis
    proof (cases "rawRequest rq")
      case rn: None
      with None \<open>cb = Some b\<close> ad assms have "r = Inl Panic" "trace s' = trace s @ [EvExecute b TODO]"
        by (auto simp: transport_def clientDo_def)
      with \<open>cb = Some b\<close> show ?thesis by (intro NotSent [of "[EvExecute b TODO]"]) auto
    next
      case (Some raw)
      obtain rr cerr w1 where cl: "client c raw w = ((rr, cerr), w1)" by (metis prod.exhaust)
      obtain err w2 where ex: "Execute_result x b TODO cerr w1 = (err, w2)" by (metis prod.exhaust)
      from None Some \<open>cb = Some b\<close> ad cl ex assms
      have r: "r = Inr (rr, err, cerr \<noteq> None)"
        "trace s' = trace s @ [EvExecute b TODO, EvClientDo rr cerr, EvExecuted b err]"
        by (auto simp: transport_def clientDo_def)
      show ?thesis
      proof (cases cerr)
        case cn: None
        with r \<open>cb = Some b\<close> show ?thesis
          by (intro Sent [of rr err False "[EvExecute b TODO, EvClientDo rr None, EvExecuted b err]"]) auto
      next
        case (Some ce)
        with r \<open>cb = Some b\<close> show ?thesis
          by (intro Sent [of rr err True "[EvExecute b TODO, EvClientDo rr (Some ce), EvExecuted b err]"]) auto
      qed
    qed
  qed
qed

lemma stamp_trace:
  assumes "stamp x rq s = (rq', s')"
  shows "trace s' = trace s @ [EvNow, EvNow]"
    "rq' = rq\<lparr>prof := prof rq'\<rparr>"
  using assms by (auto simp: stamp_def split: prod.splits)

lemma buildResponse_cases [consumes 1, case_names NoResponse ReadError CloseError Read]:
  assumes "buildResponse x rq rr err s = (r, s')"
  obtains
    (NoResponse) "rr = None"
      "r = Inr (\<lparr>request = rq, rawResponse = None, body = None, statusCode = 0\<rparr>, err)" "s' = s"
  | (ReadError) raw e where "rr = Some raw" "r = Inl e"
      "trace s' = trace s @ [EvReadAll raw (Some e), EvLog ''ioutil.ReadAll(rawResponse.Body)'' e]"
  | (CloseError) raw e where "rr = Some raw" "r = Inl e"
      "trace s' = trace s @ [EvReadAll raw None, EvClose raw (Some e), EvLog ''rawResponse.Body.Close()'' e]"
  | (Read) raw b where "rr = Some raw"
      "r = Inr (\<lparr>request = rq, rawResponse = Some raw, body = Some b, statusCode = StatusCode raw\<rparr>, None)"
      "trace s' = trace s @ [EvReadAll raw None, EvClose raw None]"
  using assms
  by (auto simp: buildResponse_def Let_def split: if_splits prod.splits sum.splits option.splits)

lemma breakerOpen_cases [consumes 1, case_names NotAsked Asked]:
  assumes "breakerOpen x cb fb s = (v, s')"
  obtains
    (NotAsked) "\<not> fb \<or> cb = None" "\<not> v" "s' = s"
  | (Asked) b where "fb" "cb = Some b" "v = IsOpen x b (world s)" "trace s' = trace s @ [EvIsOpen b v]"
      "world s' = world s"
  using assms
  by (auto simp: breakerOpen_def split: if_splits prod.splits sum.splits option.splits)

lemma retryHooks_loop_votes:
  assumes "retryHooks_loop 0 hooks resp err s = (v, s')"
  obtains n where "trace s' = trace s @ votes resp err n v"
    "if v then n < length hooks else n = length hooks"
proof -
  from retryHooks_loop_trace [OF assms] obtain n where
    "trace s' = trace s @ map (\<lambda>j. EvRetryHook j resp err False) [0..<0 + n] @
          (if v then [EvRetryHook (0 + n) resp err True] else [])"
    "if v then n < length hooks else n = length hooks"
    by blast
  then show thesis by (intro that [of n]) (simp_all add: votes_def)
qed


lemma attempt_cases [consumes 1, case_names BodyError Panic ReadError CloseError Open Voted]:
  assumes run: "attempt c x rq count s = (out, s')"
  defines "cb \<equiv> h c (resolvedName c rq)"
  defines "G \<equiv> EvGetCircuit (resolvedName c rq) (h c (resolvedName c rq))"
  defines "R \<equiv> (if 1 \<le> count then [EvReqBody None] else [])"
  obtains
    (BodyError) e where "1 \<le> count" "out = Return (Returned e)"
      "trace s' = trace s @ [G, EvReqBody (Some e)]"
  | (Panic) T where "out = Return Panic" "trace s' = trace s @ G # R @ T"
      "T = [] \<or> (\<exists>b. cb = Some b \<and> T = [EvExecute b TODO])"
  | (ReadError) T terr raw e where "out = Return (Returned e)"
      "trace s' = trace s @ G # R @ T @
         [EvNow, EvNow, EvReadAll raw (Some e), EvLog ''ioutil.ReadAll(rawResponse.Body)'' e]"
      "(cb = None \<and> T = [EvClientDo (Some raw) terr]) \<or>
       (\<exists>b err0. cb = Some b \<and> T = [EvExecute b TODO, EvClientDo (Some raw) terr, EvExecuted b err0])"
  | (CloseError) T terr raw e where "out = Return (Returned e)"
      "trace s' = trace s @ G # R @ T @
         [EvNow, EvNow, EvReadAll raw None, EvClose raw (Some e), EvLog ''rawResponse.Body.Close()'' e]"
      "(cb = None \<and> T = [EvClientDo (Some raw) terr]) \<or>
       (\<exists>b err0. cb = Some b \<and> T = [EvExecute b TODO, EvClientDo (Some raw) terr, EvExecuted b err0])"
  | (Open) b rr ce err0 resp err where "cb = Some b" "out = Break err (Some resp)"
      "trace s' = trace s @ G # R @ [EvExecute b TODO, EvClientDo rr (Some ce), EvExecuted b err0,
         EvNow, EvNow] @ readEvents rr @ [EvIsOpen b True]"
      "rawResponse resp = rr"
  | (Voted) T rr err0 Q resp err n v S where
      "trace s' = trace s @ G # R @ T @ [EvNow, EvNow] @ readEvents rr @ Q @
         votes (Some resp) err n v @ S"
      "(cb = None \<and> T = [EvClientDo rr err0] \<and> Q = []) \<or>
       (\<exists>b. cb = Some b \<and> T = [EvExecute b TODO, EvExecuted b err0] \<and> rr = None \<and> err0 \<noteq> None \<and> Q = []) \<or>
       (\<exists>b. cb = Some b \<and> T = [EvExecute b TODO, EvClientDo rr None, EvExecuted b err0] \<and> Q = []) \<or>
       (\<exists>b ce. cb = Some b \<and> T = [EvExecute b TODO, EvClientDo rr (Some ce), EvExecuted b err0] \<and>
          Q = [EvIsOpen b False])"
      "rawResponse resp = rr"
      "request resp = rq\<lparr>rawRequest := rawRequest (request resp), prof := prof (request resp)\<rparr>"
      "if rr = None then body resp = None \<and> statusCode resp = 0 \<and> err = err0
       else body resp \<noteq> None \<and> statusCode resp = StatusCode (the rr) \<and> err = None"
      "if v then n < length (retryHooks c) else n = length (retryHooks c)"
      "(out = Break err (Some resp) \<and> S = [] \<and> (\<not> v \<or> retry c < count + 1 \<or> stg c = None)) \<or>
       (out = Continue (request resp) err (Some resp) \<and> v \<and> count + 1 \<le> retry c \<and>
        (\<exists>backoff w. stg c = Some backoff \<and>
           S = [EvBackoff (count + 1) (fst (backoff (count + 1) w)), EvAfter (fst (backoff (count + 1) w))] \<and>
           world s' = After x (fst (backoff (count + 1) w)) (snd (backoff (count + 1) w))))"
proof -
  let ?s0 = "emit G (world s) s"
  obtain r1 s1 where rem: "rematerialize x rq count ?s0 = (r1, s1)" by (metis prod.exhaust)
  note att = run [unfolded attempt_def Let_def, folded G_def cb_def, unfolded rem]
  from rem consider
      (err) e where "1 \<le> count" "r1 = Inl (Returned e)" "trace s1 = trace s @ [G, EvReqBody (Some e)]"
    | (panic) "r1 = Inl Panic" "trace s1 = trace s @ G # R"
    | (go) rq1 where "r1 = Inr rq1" "trace s1 = trace s @ G # R"
        "rq1 = rq\<lparr>rawRequest := rawRequest rq1\<rparr>"
    by (cases rule: rematerialize_cases) (auto simp: R_def)
  then show thesis
  proof cases
    case (err e)
    with att have "out = Return (Returned e)" "s' = s1" by auto
    with err show ?thesis by (intro BodyError [of e]) auto
  next
    case panic
    with att have "out = Return Panic" "s' = s1" by auto
    with panic show ?thesis by (intro Panic [of "[]"]) auto
  next
    case (go rq1)
    obtain r2 s2 where tr: "transport c x cb rq1 s1 = (r2, s2)" by (metis prod.exhaust)
    note att2 = att [unfolded go(1), simplified, unfolded tr]
    from tr show ?thesis
    proof (cases rule: transport_cases)
      case (NotSent T)
      note tpanic = this
      with att2 have "out = Return Panic" "s' = s2" by auto
      with tpanic go show ?thesis by (intro Panic [of T]) auto
    next
      case (Sent T rr err0 fb)
      note sent = this
      obtain rq2 s3 where st: "stamp x rq1 s2 = (rq2, s3)" by (metis prod.exhaust)
      note stt = stamp_trace [OF st]
      obtain r4 s4 where br: "buildResponse x rq2 rr err0 s3 = (r4, s4)" by (metis prod.exhaust)
      note att3 = att2 [unfolded sent(1), simplified, unfolded st, simplified, unfolded br]
      have pre3: "trace s3 = trace s @ G # R @ T @ [EvNow, EvNow]"
        using stt(1) sent(2) go(2) by simp
      have rq2: "rq2 = rq\<lparr>rawRequest := rawRequest rq2, prof := prof rq2\<rparr>"
        using stt(2) go(3) by (cases rq, cases rq1, cases rq2) auto
      from br consider
          (rerr) raw e where "rr = Some raw" "r4 = Inl e"
            "trace s4 = trace s3 @ [EvReadAll raw (Some e), EvLog ''ioutil.ReadAll(rawResponse.Body)'' e]"
        | (cerr) raw e where "rr = Some raw" "r4 = Inl e"
            "trace s4 = trace s3 @ [EvReadAll raw None, EvClose raw (Some e), EvLog ''rawResponse.Body.Close()'' e]"
        | (built) resp err where "r4 = Inr (resp, err)" "trace s4 = trace s3 @ readEvents rr"
            "rawResponse resp = rr" "request resp = rq2"
            "if rr = None then body resp = None \<and> statusCode resp = 0 \<and> err = err0
             else body resp \<noteq> None \<and> statusCode resp = StatusCode (the rr) \<and> err = None"
      proof (cases rule: buildResponse_cases)
        case NoResponse
        then show ?thesis
          by (intro built [of "\<lparr>request = rq2, rawResponse = None, body = None, statusCode = 0\<rparr>" err0])
             (auto simp: readEvents_def)
      next
        case (ReadError raw e)
        then show ?thesis by (intro rerr [of raw e]) auto
      next
        case (CloseError raw e)
        then show ?thesis by (intro cerr [of raw e]) auto
      next
        case (Read raw b)
        then show ?thesis
          by (intro built [of "\<lparr>request = rq2, rawResponse = Some raw, body = Some b,
                statusCode = StatusCode raw\<rparr>" None])
             (auto simp: readEvents_def)
      qed
      then show ?thesis
      proof cases
        case (rerr raw e)
        with att3 have o: "out = Return (Returned e)" "s' = s4" by auto
        from sent(3) rerr(1) obtain terr where
          "(cb = None \<and> T = [EvClientDo (Some raw) terr]) \<or>
           (\<exists>b err0. cb = Some b \<and> T = [EvExecute b TODO, EvClientDo (Some raw) terr, EvExecuted b err0])"
          by auto
        with o rerr pre3 show ?thesis by (intro ReadError [where e = e and T = T and raw = raw and terr = terr]) auto
      next
        case (cerr raw e)
        with att3 have o: "out = Return (Returned e)" "s' = s4" by auto
        from sent(3) cerr(1) obtain terr where
          "(cb = None \<and> T = [EvClientDo (Some raw) terr]) \<or>
           (\<exists>b err0. cb = Some b \<and> T = [EvExecute b TODO, EvClientDo (Some raw) terr, EvExecuted b err0])"
          by auto
        with o cerr pre3 show ?thesis by (intro CloseError [where e = e and T = T and raw = raw and terr = terr]) auto
      next
        case (built resp err)
        obtain v5 s5 where bo: "breakerOpen x cb fb s4 = (v5, s5)" by (metis prod.exhaust)
        note att4 = att3 [unfolded built(1), simplified, unfolded bo]
        have pre4: "trace s4 = trace s @ G # R @ T @ [EvNow, EvNow] @ readEvents rr"
          using pre3 built(2) by simp
        from bo consider
            (isopen) b ce where "cb = Some b" "v5"
              "T = [EvExecute b TODO, EvClientDo rr (Some ce), EvExecuted b err0]"
              "trace s5 = trace s4 @ [EvIsOpen b True]"
          | (goon) Q where "\<not> v5" "trace s5 = trace s4 @ Q"
              "(cb = None \<and> T = [EvClientDo rr err0] \<and> Q = []) \<or>
               (\<exists>b. cb = Some b \<and> T = [EvExecute b TODO, EvExecuted b err0] \<and> rr = None \<and> err0 \<noteq> None \<and> Q = []) \<or>
               (\<exists>b. cb = Some b \<and> T = [EvExecute b TODO, EvClientDo rr None, EvExecuted b err0] \<and> Q = []) \<or>
               (\<exists>b ce. cb = Some b \<and> T = [EvExecute b TODO, EvClientDo rr (Some ce), EvExecuted b err0] \<and>
                  Q = [EvIsOpen b False])"
        proof (cases rule: breakerOpen_cases)
          case NotAsked
          with sent(3) show ?thesis by (intro goon [of "[]"]) auto
        next
          case (Asked b)
          with sent(3) obtain ce where T: "T = [EvExecute b TODO, EvClientDo rr (Some ce), EvExecuted b err0]"
            by auto
          show ?thesis
          proof (cases v5)
            case True
            with Asked T show ?thesis by (intro isopen [of b ce]) auto
          next
            case False
            with Asked T show ?thesis by (intro goon [of "[EvIsOpen b False]"]) auto
          qed
        qed
        then show ?thesis
        proof cases
          case (isopen b ce)
          with att4 have o: "out = Break err (Some resp)" "s' = s5" by auto
          with isopen pre4 built show ?thesis by (intro Open [where b = b and err = err and resp = resp and rr = rr and ce = ce and ?err0.0 = err0]) auto
        next
          case (goon Q)
          obtain v s6 where rh: "retryHooks_loop 0 (retryHooks c) (Some resp) err s5 = (v, s6)"
            by (metis prod.exhaust)
          from rh obtain n where n: "trace s6 = trace s5 @ votes (Some resp) err n v"
            "if v then n < length (retryHooks c) else n = length (retryHooks c)"
            by (rule retryHooks_loop_votes)
          note att5 = att4 [simplified goon(1), simplified, unfolded rh, simplified]
          have pre6: "trace s6 = trace s @ G # R @ T @ [EvNow, EvNow] @ readEvents rr @ Q @
              votes (Some resp) err n v"
            using pre4 goon(2) n(1) by simp
          have dec: "\<exists>S. trace s' = trace s6 @ S \<and>
            ((out = Break err (Some resp) \<and> S = [] \<and> (\<not> v \<or> retry c < count + 1 \<or> stg c = None)) \<or>
             (out = Continue rq2 err (Some resp) \<and> v \<and> count + 1 \<le> retry c \<and>
              (\<exists>backoff w. stg c = Some backoff \<and>
                 S = [EvBackoff (count + 1) (fst (backoff (count + 1) w)),
                      EvAfter (fst (backoff (count + 1) w))] \<and>
                 world s' = After x (fst (backoff (count + 1) w)) (snd (backoff (count + 1) w)))))"
          proof (cases "stg c")
            case None
            with att5 show ?thesis by auto
          next
            case (Some backoff)
            show ?thesis
            proof (cases "v \<and> count + 1 \<le> retry c")
              case False
              with Some att5 show ?thesis by auto
            next
              case True
              obtain d w where bk: "backoff (count + 1) (world s6) = (d, w)" by (metis prod.exhaust)
              with True Some att5 have "out = Continue rq2 err (Some resp)"
                "trace s' = trace s6 @ [EvBackoff (count + 1) d, EvAfter d]"
                "world s' = After x d w"
                by auto
              with True Some bk show ?thesis
                by (intro exI [of _ "[EvBackoff (count + 1) d, EvAfter d]"])
                   (auto intro!: exI [of _ "world s6"])
            qed
          qed
          then obtain S where S: "trace s' = trace s6 @ S"
            "(out = Break err (Some resp) \<and> S = [] \<and> (\<not> v \<or> retry c < count + 1 \<or> stg c = None)) \<or>
             (out = Continue rq2 err (Some resp) \<and> v \<and> count + 1 \<le> retry c \<and>
              (\<exists>backoff w. stg c = Some backoff \<and>
                 S = [EvBackoff (count + 1) (fst (backoff (count + 1) w)),
                      EvAfter (fst (backoff (count + 1) w))] \<and>
                 world s' = After x (fst (backoff (count + 1) w)) (snd (backoff (count + 1) w))))"
            by blast
          show ?thesis
          proof (rule Voted [where T = T and rr = rr and ?err0.0 = err0 and Q = Q and resp = resp and err = err and n = n and v = v and S = S])
            show "trace s' = trace s @ G # R @ T @ [EvNow, EvNow] @ readEvents rr @ Q @
                votes (Some resp) err n v @ S"
              using S(1) pre6 by simp
            show "request resp = rq\<lparr>rawRequest := rawRequest (request resp), prof := prof (request resp)\<rparr>"
              using rq2 built(4) by simp
          qed (use goon(3) built n(2) S(2) in simp_all)
        qed
      qed
    qed
  qed
qed

subsection \<open>The attempts of a run\<close>

lemma votes_mem: "e \<in> set (votes resp err n v) \<Longrightarrow> \<exists>k b. e = EvRetryHook k resp err b"
  by (auto simp: votes_def split: if_splits)

lemma readEvents_mem:
  "e \<in> set (readEvents rr) \<Longrightarrow> \<exists>raw. rr = Some raw \<and> (e = EvReadAll raw None \<or> e = EvClose raw None)"
  by (auto simp: readEvents_def split: option.splits)

lemma filter_votes [simp]:
  "(\<And>k r e b. \<not> P (EvRetryHook k r e b)) \<Longrightarrow> filter P (votes resp err n v) = []"
  by (auto simp: filter_empty_conv dest: votes_mem)

lemma filter_readEvents [simp]:
  "(\<And>raw r. \<not> P (EvReadAll raw r)) \<Longrightarrow> (\<And>raw r. \<not> P (EvClose raw r)) \<Longrightarrow> filter P (readEvents rr) = []"
  by (auto simp: filter_empty_conv dest: readEvents_mem)

text \<open>An attempt begins with the lookup of the breaker; one that ends in \<^verbatim>\<open>continue\<close> ends with the wait.\<close>

lemma attempt_head:
  assumes "attempt c x rq count s = (out, s')"
  shows "\<exists>rest. trace s' = trace s @ EvGetCircuit (resolvedName c rq) (h c (resolvedName c rq)) # rest \<and>
     filter isGetCircuit rest = []"
  using assms
proof (cases rule: attempt_cases)
  case (Panic T)
  then show ?thesis by auto
next
  case (ReadError T terr raw e)
  then show ?thesis by auto
next
  case (CloseError T terr raw e)
  then show ?thesis by auto
next
  case (Voted T rr err0 Q resp err n v S)
  then show ?thesis by auto
qed auto

lemma attempt_Continue:
  assumes "attempt c x rq count s = (Continue rq' err' resp', s')"
  shows "count + 1 \<le> retry c \<and> rq' = rq\<lparr>rawRequest := rawRequest rq', prof := prof rq'\<rparr> \<and>
    (\<exists>pre backoff w. stg c = Some backoff \<and>
       trace s' = trace s @ pre @ [EvBackoff (count + 1) (fst (backoff (count + 1) w)),
                                  EvAfter (fst (backoff (count + 1) w))])"
  using assms
proof (cases rule: attempt_cases)
  case (Voted T rr err0 Q resp err n v S)
  from Voted(1,7) obtain backoff w where
    "stg c = Some backoff"
    "S = [EvBackoff (count + 1) (fst (backoff (count + 1) w)), EvAfter (fst (backoff (count + 1) w))]"
    by auto
  with Voted(1) have "\<exists>pre backoff w. stg c = Some backoff \<and>
       trace s' = trace s @ pre @ [EvBackoff (count + 1) (fst (backoff (count + 1) w)),
                                  EvAfter (fst (backoff (count + 1) w))]"
    by (intro exI [of _ "EvGetCircuit (resolvedName c rq) (h c (resolvedName c rq)) #
          (if 1 \<le> count then [EvReqBody None] else []) @ T @ [EvNow, EvNow] @ readEvents rr @ Q @
          votes (Some resp) err n v"] exI [of _ backoff] exI [of _ w]) simp
  with Voted show ?thesis by auto
qed auto

lemma genReply_loop_extends:
  assumes "genReply_loop c x rq count err resp s = (r, s')"
  shows "\<exists>evs. trace s' = trace s @ evs"
  using genReply_loop_events [OF assms] by blast

lemma genReply_loop_head:
  assumes "genReply_loop c x rq count err resp s = (r, s')" "count \<le> retry c"
  shows "\<exists>name cb Z. trace s' = trace s @ EvGetCircuit name cb # Z"
proof -
  obtain out s1 where att: "attempt c x rq count s = (out, s1)" by (metis prod.exhaust)
  from attempt_head [OF att] obtain rest where
    h: "trace s1 = trace s @ EvGetCircuit (resolvedName c rq) (h c (resolvedName c rq)) # rest"
    by blast
  show ?thesis
  proof (cases out)
    case (Continue rq' err' resp')
    with att assms have "genReply_loop c x rq' (count + 1) err' resp' s1 = (r, s')"
      by (simp add: genReply_loop.simps [of c x rq count])
    from genReply_loop_extends [OF this] h show ?thesis by auto
  next
    case (Break err' resp')
    with att assms have "s' = s1" by (simp add: genReply_loop.simps [of c x rq count])
    with h show ?thesis by auto
  next
    case (Return f)
    with att assms have "s' = s1" by (simp add: genReply_loop.simps [of c x rq count])
    with h show ?thesis by auto
  qed
qed

text \<open>Every event of the loop belongs to one of its attempts.\<close>

lemma loop_position:
  assumes "genReply_loop c x rq count err resp s = (r, s')"
    and "trace s' = trace s @ pre @ e # post"
  shows "\<exists>rq_i n s_i out s_i' A pre_i post_i Z.
      attempt c x rq_i (count + int n) s_i = (out, s_i') \<and> count + int n \<le> retry c \<and>
      rq_i = rq\<lparr>rawRequest := rawRequest rq_i, prof := prof rq_i\<rparr> \<and>
      trace s_i = trace s @ A \<and> trace s_i' = trace s_i @ pre_i @ e # post_i \<and>
      pre = A @ pre_i \<and> post = post_i @ Z \<and>
      length (filter isGetCircuit A) = n \<and>
      (if n = 0 then A = [] else (\<exists>A' d. A = A' @ [EvBackoff (count + int n) d, EvAfter d])) \<and>
      (if isContinue out then (\<exists>name cb Z'. Z = EvGetCircuit name cb # Z')
       else Z = [] \<and> s' = s_i' \<and> r = (case out of Return f \<Rightarrow> Inl f | Break e' r' \<Rightarrow> Inr (e', r')))"
  using assms
proof (induction arbitrary: pre rule: genReply_loop_induct)
  case (Exit rq count err resp s)
  then show ?case by simp
next
  case (Break rq count err resp s err' resp' s1)
  show ?case
    apply (rule exI [of _ rq], rule exI [of _ 0], rule exI [of _ s], rule exI [of _ "Break err' resp'"],
        rule exI [of _ s1], rule exI [of _ "[]"], rule exI [of _ pre], rule exI [of _ post],
        rule exI [of _ "[]"])
    using Break by simp
next
  case (Return rq count err resp s f s1)
  show ?case
    apply (rule exI [of _ rq], rule exI [of _ 0], rule exI [of _ s], rule exI [of _ "Return f"],
        rule exI [of _ s1], rule exI [of _ "[]"], rule exI [of _ pre], rule exI [of _ post],
        rule exI [of _ "[]"])
    using Return by simp
next
  case (Continue rq count err resp s rq' err' resp' s1 r s')
  note cont = attempt_Continue [OF Continue(2)]
  from attempt_head [OF Continue(2)] obtain rest where
    h1: "trace s1 = trace s @ EvGetCircuit (resolvedName c rq) (h c (resolvedName c rq)) # rest"
        "filter isGetCircuit rest = []" by blast
  let ?evs1 = "EvGetCircuit (resolvedName c rq) (h c (resolvedName c rq)) # rest"
  from cont h1(1) obtain pre1 d where
    e1: "?evs1 = pre1 @ [EvBackoff (count + 1) d, EvAfter d]" by auto
  from genReply_loop_head [OF Continue(3)] cont obtain name cb Z' where
    h2: "trace s' = trace s1 @ EvGetCircuit name cb # Z'" by auto
  let ?evs2 = "EvGetCircuit name cb # Z'"
  from Continue(5) h1(1) h2 have "?evs1 @ ?evs2 = pre @ e # post" by simp
  then consider
      (here) m where "?evs1 = pre @ e # m" "post = m @ ?evs2"
    | (later) m where "pre = ?evs1 @ m" "?evs2 = m @ e # post"
    by (auto simp: append_eq_append_conv2 append_eq_Cons_conv Cons_eq_append_conv)
  then show ?case
  proof cases
    case (here m)
    show ?thesis
      apply (rule exI [of _ rq], rule exI [of _ 0], rule exI [of _ s],
          rule exI [of _ "Continue rq' err' resp'"],
          rule exI [of _ s1], rule exI [of _ "[]"], rule exI [of _ pre], rule exI [of _ m],
          rule exI [of _ ?evs2])
      using Continue(1,2) here h1(1) by simp
  next
    case (later m)
    with h2 have "trace s' = trace s1 @ m @ e # post" by simp
    from Continue(4) [OF this] obtain rq_i n s_i out s_i' A pre_i post_i Z where
      ih: "attempt c x rq_i (count + 1 + int n) s_i = (out, s_i')" "count + 1 + int n \<le> retry c"
      "rq_i = rq'\<lparr>rawRequest := rawRequest rq_i, prof := prof rq_i\<rparr>"
      "trace s_i = trace s1 @ A" "trace s_i' = trace s_i @ pre_i @ e # post_i"
      "m = A @ pre_i" "post = post_i @ Z"
      "length (filter isGetCircuit A) = n"
      "if n = 0 then A = [] else (\<exists>A' d. A = A' @ [EvBackoff (count + 1 + int n) d, EvAfter d])"
      "if isContinue out then (\<exists>name cb Z'. Z = EvGetCircuit name cb # Z')
       else Z = [] \<and> s' = s_i' \<and> r = (case out of Return f \<Rightarrow> Inl f | Break e' r' \<Rightarrow> Inr (e', r'))"
      by blast
    have cnt: "count + 1 + int n = count + int (Suc n)" by simp
    note ih' = ih(1,2,9) [unfolded cnt]
    have rqi: "rq_i = rq\<lparr>rawRequest := rawRequest rq_i, prof := prof rq_i\<rparr>"
      using ih(3) cont by (cases rq, cases rq', cases rq_i) auto
    have A: "\<exists>A' d. ?evs1 @ A = A' @ [EvBackoff (count + int (Suc n)) d, EvAfter d]"
    proof (cases "n = 0")
      case True
      with ih(9) have "A = []" by auto
      with e1 True show ?thesis by auto
    next
      case False
      with ih(9) obtain A' d' where "A = A' @ [EvBackoff (count + 1 + int n) d', EvAfter d']" by auto
      then have "?evs1 @ A = (?evs1 @ A') @ [EvBackoff (count + int (Suc n)) d', EvAfter d']"
        by (simp add: cnt)
      then show ?thesis by blast
    qed
    show ?thesis
      apply (rule exI [of _ rq_i], rule exI [of _ "Suc n"], rule exI [of _ s_i],
          rule exI [of _ out],
          rule exI [of _ s_i'], rule exI [of _ "?evs1 @ A"], rule exI [of _ pre_i], rule exI [of _ post_i],
          rule exI [of _ Z])
      using ih' ih(4-8,10) rqi A later h1 by simp
  qed
qed

lemma mid_split:
  assumes "xs @ ms @ ys = pre @ e # post" "e \<notin> set xs" "e \<notin> set ys"
  shows "\<exists>mp mq. ms = mp @ e # mq \<and> pre = xs @ mp \<and> post = mq @ ys"
proof -
  from assms(1) have "e \<in> set (xs @ ms @ ys)" by simp
  with assms(2,3) have "e \<in> set ms" by simp
  from assms(1) consider
      (a) m where "xs = pre @ m" "m @ ms @ ys = e # post"
    | (b) m where "xs @ m = pre" "ms @ ys = m @ e # post"
    by (auto simp: append_eq_append_conv2)
  then show ?thesis
  proof cases
    case (a m)
    show ?thesis
    proof (cases m)
      case Nil
      with a have "ms @ ys = e # post" "pre = xs" by auto
      with assms(3) \<open>e \<in> set ms\<close> show ?thesis
        by (cases ms) auto
    next
      case (Cons m0 m')
      with a assms(2) show ?thesis by auto
    qed
  next
    case (b m)
    from b(2) consider
        (c) k where "ms = m @ k" "k @ ys = e # post"
      | (d) k where "ms @ k = m" "ys = k @ e # post"
      by (auto simp: append_eq_append_conv2)
    then show ?thesis
    proof cases
      case (c k)
      show ?thesis
      proof (cases k)
        case Nil
        with c assms(3) show ?thesis by auto
      next
        case (Cons k0 k')
        with c b show ?thesis by auto
      qed
    next
      case (d k)
      with assms(3) show ?thesis by auto
    qed
  qed
qed

lemma attemptEvent_loopEvent: "attemptEvent e \<Longrightarrow> loopEvent e"
  by (cases e) auto

text \<open>
  An attempt event at any place of the trace of \<^verbatim>\<open>genReply\<close>, or of \<^verbatim>\<open>Do\<close>, lies in
  the trace of one attempt: the attempt number \<open>n\<close>, after \<open>n\<close> attempts that ended in
  \<^verbatim>\<open>continue\<close> (their events are \<open>A\<close>), and before whatever follows the attempt (\<open>Z\<close>).
\<close>

lemma genReply_position:
  assumes run: "genReply c x rq s = (r, s')"
    and tr: "trace s' = trace s @ pre @ e # post" and ae: "attemptEvent e"
  shows "\<exists>rq_i n s_i out s_i' A pre_i post_i Z.
      attempt c x rq_i (int n) s_i = (out, s_i') \<and> int n \<le> retry c \<and>
      rq_i = rq\<lparr>rawRequest := rawRequest rq_i, prof := prof rq_i\<rparr> \<and>
      trace s_i = trace s @ A \<and> trace s_i' = trace s_i @ pre_i @ e # post_i \<and>
      pre = A @ pre_i \<and> post = post_i @ Z \<and>
      length (filter isGetCircuit A) = n \<and>
      (if n = 0 then A = [] else (\<exists>A' d. A = A' @ [EvBackoff (int n) d, EvAfter d])) \<and>
      (case out of
         Continue rq' err' resp' \<Rightarrow> (\<exists>name cb Z'. Z = EvGetCircuit name cb # Z')
       | Return f \<Rightarrow> Z = [] \<and> r = Inl f
       | Break None resp' \<Rightarrow> Z = [] \<and> r = Inr resp'
       | Break (Some err') resp' \<Rightarrow> Z = [EvLog ''c.client.Do'' err'] \<and> r = Inl (Returned err'))"
proof -
  obtain lr s1 where l: "genReply_loop c x rq 0 None None s = (lr, s1)"
    by (cases "genReply_loop c x rq 0 None None s")
  from genReply_loop_extends [OF l] obtain evs where evs: "trace s1 = trace s @ evs" by blast
  from run l have "\<exists>tail. trace s' = trace s1 @ tail \<and> filter attemptEvent tail = [] \<and>
     (case lr of Inl f \<Rightarrow> tail = [] \<and> r = Inl f
      | Inr (None, resp') \<Rightarrow> tail = [] \<and> r = Inr resp'
      | Inr (Some err', resp') \<Rightarrow> tail = [EvLog ''c.client.Do'' err'] \<and> r = Inl (Returned err'))"
    by (auto simp: genReply_def split: sum.splits option.splits)
  then obtain tail where tail: "trace s' = trace s1 @ tail" "filter attemptEvent tail = []"
     "case lr of Inl f \<Rightarrow> tail = [] \<and> r = Inl f
      | Inr (None, resp') \<Rightarrow> tail = [] \<and> r = Inr resp'
      | Inr (Some err', resp') \<Rightarrow> tail = [EvLog ''c.client.Do'' err'] \<and> r = Inl (Returned err')"
    by blast
  from tail(2) ae have "e \<notin> set tail" by (auto simp: filter_empty_conv)
  moreover from tr tail(1) evs have "[] @ evs @ tail = pre @ e # post" by simp
  ultimately obtain mp mq where m: "evs = mp @ e # mq" "pre = mp" "post = mq @ tail"
    using mid_split [of "[]" evs tail pre e post] by auto
  with evs have "trace s1 = trace s @ pre @ e # mq" by simp
  from loop_position [OF l this] obtain rq_i n s_i out s_i' A pre_i post_i Z where
    p: "attempt c x rq_i (0 + int n) s_i = (out, s_i')" "0 + int n \<le> retry c"
      "rq_i = rq\<lparr>rawRequest := rawRequest rq_i, prof := prof rq_i\<rparr>"
      "trace s_i = trace s @ A" "trace s_i' = trace s_i @ pre_i @ e # post_i"
      "pre = A @ pre_i" "mq = post_i @ Z"
      "length (filter isGetCircuit A) = n"
      "if n = 0 then A = [] else (\<exists>A' d. A = A' @ [EvBackoff (0 + int n) d, EvAfter d])"
      "if isContinue out then (\<exists>name cb Z'. Z = EvGetCircuit name cb # Z')
       else Z = [] \<and> s1 = s_i' \<and> lr = (case out of Return f \<Rightarrow> Inl f | Break e' r' \<Rightarrow> Inr (e', r'))"
    by blast
  have p9: "if n = 0 then A = [] else (\<exists>A' d. A = A' @ [EvBackoff (int n) d, EvAfter d])"
    using p(9) by (cases "n = 0") auto
  have last: "case out of
         Continue rq' err' resp' \<Rightarrow> (\<exists>name cb Z'. Z @ tail = EvGetCircuit name cb # Z')
       | Return f \<Rightarrow> Z @ tail = [] \<and> r = Inl f
       | Break None resp' \<Rightarrow> Z @ tail = [] \<and> r = Inr resp'
       | Break (Some err') resp' \<Rightarrow> Z @ tail = [EvLog ''c.client.Do'' err'] \<and> r = Inl (Returned err')"
    using p(10) tail(3) by (auto split: outcome.splits option.splits)
  show ?thesis
    apply (rule exI [of _ rq_i], rule exI [of _ n], rule exI [of _ s_i], rule exI [of _ out],
        rule exI [of _ s_i'], rule exI [of _ A], rule exI [of _ pre_i], rule exI [of _ post_i],
        rule exI [of _ "Z @ tail"])
    using p(1-8) p9 m(3) last by simp
qed


lemma Do_position:
  assumes run: "Do c x ctx rq (start w) = (res, s')"
    and tr: "trace s' = pre @ e # post" and ae: "attemptEvent e"
  shows "\<exists>rq_i n s_i out s_i' P A pre_i post_i Z.
      attempt c x rq_i (int n) s_i = (out, s_i') \<and> int n \<le> retry c \<and>
      trace s_i = P @ A \<and> trace s_i' = trace s_i @ pre_i @ e # post_i \<and>
      pre = P @ A @ pre_i \<and> post = post_i @ Z \<and>
      filter attemptEvent P = [] \<and>
      length (filter isGetCircuit A) = n \<and>
      (if n = 0 then A = [] else (\<exists>A' d. A = A' @ [EvBackoff (int n) d, EvAfter d])) \<and>
      (case out of
         Continue rq' err' resp' \<Rightarrow> (\<exists>name cb Z'. Z = EvGetCircuit name cb # Z')
       | Return f \<Rightarrow> Z = [] \<and> res = Inl f
       | Break None resp' \<Rightarrow> filter attemptEvent Z = []
       | Break (Some err') resp' \<Rightarrow> Z = [EvLog ''c.client.Do'' err'] \<and> res = Inl (Returned err'))"
proof -
  have mem: "e \<in> set (trace s')" using tr by simp
  from run show ?thesis
  proof (cases rule: Do_cases)
    case (ReqBody e0)
    with mem ae show ?thesis by auto
  next
    case (Before k e0)
    with mem ae show ?thesis by auto
  next
    case (NewRequest m u b e0)
    with mem ae show ?thesis by auto
  next
    case (RequestHook m u b k e0)
    with mem ae show ?thesis by auto
  next
    case (Loop m u b rq2 s2 gr s3 tail)
    from genReply_events [OF Loop(2)] obtain evs where
      evs: "trace s3 = trace s2 @ evs" by blast
    have P: "filter attemptEvent (trace s2) = []"
      using Loop(1) by (simp add: filter_map comp_def)
    have T: "filter attemptEvent tail = []"
      using Loop(4) by (auto simp: filter_map comp_def)
    from P T ae have "e \<notin> set (trace s2)" "e \<notin> set tail" by (auto simp: filter_empty_conv)
    moreover from tr Loop(3) evs have "trace s2 @ evs @ tail = pre @ e # post" by simp
    ultimately obtain mp mq where m: "evs = mp @ e # mq" "pre = trace s2 @ mp" "post = mq @ tail"
      using mid_split [of "trace s2" evs tail pre e post] by auto
    with evs have "trace s3 = trace s2 @ mp @ e # mq" by simp
    from genReply_position [OF Loop(2) this ae] obtain rq_i n s_i out s_i' A pre_i post_i Z where
      p: "attempt c x rq_i (int n) s_i = (out, s_i')" "int n \<le> retry c"
        "trace s_i = trace s2 @ A" "trace s_i' = trace s_i @ pre_i @ e # post_i"
        "mp = A @ pre_i" "mq = post_i @ Z"
        "length (filter isGetCircuit A) = n"
        "if n = 0 then A = [] else (\<exists>A' d. A = A' @ [EvBackoff (int n) d, EvAfter d])"
        "case out of
           Continue rq' err' resp' \<Rightarrow> (\<exists>name cb Z'. Z = EvGetCircuit name cb # Z')
         | Return f \<Rightarrow> Z = [] \<and> gr = Inl f
         | Break None resp' \<Rightarrow> Z = [] \<and> gr = Inr resp'
         | Break (Some err') resp' \<Rightarrow> Z = [EvLog ''c.client.Do'' err'] \<and> gr = Inl (Returned err')"
      by blast
    have last: "case out of
         Continue rq' err' resp' \<Rightarrow> (\<exists>name cb Z'. Z @ tail = EvGetCircuit name cb # Z')
       | Return f \<Rightarrow> Z @ tail = [] \<and> res = Inl f
       | Break None resp' \<Rightarrow> filter attemptEvent (Z @ tail) = []
       | Break (Some err') resp' \<Rightarrow> Z @ tail = [EvLog ''c.client.Do'' err'] \<and> res = Inl (Returned err')"
      using p(9) Loop(4) T by (auto split: outcome.splits option.splits)
    show ?thesis
      apply (rule exI [of _ rq_i], rule exI [of _ n], rule exI [of _ s_i], rule exI [of _ out],
          rule exI [of _ s_i'], rule exI [of _ "trace s2"], rule exI [of _ A], rule exI [of _ pre_i],
          rule exI [of _ post_i], rule exI [of _ "Z @ tail"])
      using p(1-8) m P last by simp
  qed
qed

lemma trace_split:
  "trace s' = trace s @ evs \<Longrightarrow> trace s' = trace s @ pre @ e # post \<Longrightarrow>
   evs = pre @ e # post \<and> e \<in> set evs"
  by auto

lemma attempt_GetCircuit:
  assumes "attempt c x rq count s = (out, s')"
    and "trace s' = trace s @ pre_i @ EvGetCircuit name cb # post_i"
  shows "pre_i = [] \<and> name = resolvedName c rq \<and> cb = h c name"
proof -
  from attempt_head [OF assms(1)] obtain rest where
    r: "trace s' = trace s @ EvGetCircuit (resolvedName c rq) (h c (resolvedName c rq)) # rest"
       "filter isGetCircuit rest = []" by blast
  with assms(2) have eq: "EvGetCircuit (resolvedName c rq) (h c (resolvedName c rq)) # rest =
      pre_i @ EvGetCircuit name cb # post_i" by simp
  show ?thesis
  proof (cases pre_i)
    case Nil
    with eq show ?thesis by auto
  next
    case (Cons p ps)
    with eq have "EvGetCircuit name cb \<in> set rest" by auto
    with r(2) show ?thesis by (auto simp: filter_empty_conv)
  qed
qed

lemma attempt_prefix_count:
  assumes "attempt c x rq count s = (out, s')"
    and "trace s' = trace s @ pre_i @ e # post_i" and "\<not> isGetCircuit e"
  shows "length (filter isGetCircuit pre_i) = 1"
proof -
  from attempt_head [OF assms(1)] obtain rest where
    r: "trace s' = trace s @ EvGetCircuit (resolvedName c rq) (h c (resolvedName c rq)) # rest"
       "filter isGetCircuit rest = []" by blast
  with assms(2) have eq: "EvGetCircuit (resolvedName c rq) (h c (resolvedName c rq)) # rest =
      pre_i @ e # post_i" by simp
  show ?thesis
  proof (cases pre_i)
    case Nil
    with eq assms(3) show ?thesis by auto
  next
    case (Cons p ps)
    with eq have "p = EvGetCircuit (resolvedName c rq) (h c (resolvedName c rq))" "rest = ps @ e # post_i"
      by auto
    with r(2) Cons show ?thesis by simp
  qed
qed

lemma no_attemptEvent_no_GetCircuit:
  "filter attemptEvent P = [] \<Longrightarrow> filter isGetCircuit P = []"
  by (induction P) (auto split: if_splits elim: isGetCircuit.elims)

subsection \<open>The place of an event in its attempt\<close>

lemma kind_split:
  assumes "Xs @ e' # Ys = pre @ e # post" "P e" "filter P Xs = []" "filter P Ys = []"
  shows "e = e' \<and> pre = Xs \<and> post = Ys"
proof -
  from assms(1) have "e \<in> set (Xs @ e' # Ys)" by simp
  with assms(2-4) have e: "e = e'" by (auto simp: filter_empty_conv)
  from assms(2-4) have "e \<notin> set Xs" "e \<notin> set Ys" by (auto simp: filter_empty_conv)
  with assms(1) e show ?thesis using unique_split [of Xs e Ys pre post] by simp
qed

lemma attempt_ClientDo:
  assumes run: "attempt c x rq count s = (out, s')"
    and tr: "trace s' = trace s @ pre_i @ EvClientDo rr terr # post_i"
  shows "\<exists>X Y W. pre_i = EvGetCircuit (resolvedName c rq) (h c (resolvedName c rq)) #
                   (if 1 \<le> count then [EvReqBody None] else []) @ X \<and>
          post_i = Y @ EvNow # EvNow # W \<and>
          ((h c (resolvedName c rq) = None \<and> X = [] \<and> Y = []) \<or>
           (\<exists>b err0. h c (resolvedName c rq) = Some b \<and> X = [EvExecute b TODO] \<and> Y = [EvExecuted b err0])) \<and>
          ((\<exists>raw e. rr = Some raw \<and> out = Return (Returned e) \<and>
               W = [EvReadAll raw (Some e), EvLog ''ioutil.ReadAll(rawResponse.Body)'' e]) \<or>
           (\<exists>raw e. rr = Some raw \<and> out = Return (Returned e) \<and>
               W = [EvReadAll raw None, EvClose raw (Some e), EvLog ''rawResponse.Body.Close()'' e]) \<or>
           (\<exists>W'. W = readEvents rr @ W' \<and>
               (if h c (resolvedName c rq) \<noteq> None \<and> terr \<noteq> None
                then (\<exists>v W''. W' = EvIsOpen (the (h c (resolvedName c rq))) v # W'')
                else filter isIsOpen W' = [])))"
proof -
  let ?G = "EvGetCircuit (resolvedName c rq) (h c (resolvedName c rq))"
  let ?R = "if 1 \<le> count then [EvReqBody None] else []"
  let ?e = "EvClientDo rr terr"
  have key: "?e = EvClientDo rr' terr' \<and> pre_i = ?G # ?R @ X \<and> post_i = Y @ EvNow # EvNow # W"
    if "trace s' = trace s @ ?G # ?R @ X @ EvClientDo rr' terr' # Y @ EvNow # EvNow # W"
      and "filter isClientDo X = []" "filter isClientDo Y = []" "filter isClientDo W = []"
    for X rr' terr' Y W
  proof -
    from that(1) tr
    have "(?G # ?R @ X) @ EvClientDo rr' terr' # (Y @ EvNow # EvNow # W) = pre_i @ ?e # post_i"
      by simp
    from kind_split [OF this, of isClientDo] that(2-4) show ?thesis by simp
  qed
  have fin: ?thesis
    if "pre_i = ?G # ?R @ X" "post_i = Y @ EvNow # EvNow # W"
      "(h c (resolvedName c rq) = None \<and> X = [] \<and> Y = []) \<or>
       (\<exists>b err0. h c (resolvedName c rq) = Some b \<and> X = [EvExecute b TODO] \<and> Y = [EvExecuted b err0])"
      "(\<exists>raw e. rr = Some raw \<and> out = Return (Returned e) \<and>
               W = [EvReadAll raw (Some e), EvLog ''ioutil.ReadAll(rawResponse.Body)'' e]) \<or>
           (\<exists>raw e. rr = Some raw \<and> out = Return (Returned e) \<and>
               W = [EvReadAll raw None, EvClose raw (Some e), EvLog ''rawResponse.Body.Close()'' e]) \<or>
           (\<exists>W'. W = readEvents rr @ W' \<and>
               (if h c (resolvedName c rq) \<noteq> None \<and> terr \<noteq> None
                then (\<exists>v W''. W' = EvIsOpen (the (h c (resolvedName c rq))) v # W'')
                else filter isIsOpen W' = []))"
    for X Y W
    using that by blast
  from run show ?thesis
  proof (cases rule: attempt_cases)
    case (BodyError e)
    from trace_split [OF BodyError(3) tr] show ?thesis by auto
  next
    case (Panic T)
    from trace_split [OF Panic(2) tr] Panic(3) show ?thesis by (auto split: if_splits)
  next
    case (ReadError T terr' raw e)
    let ?W = "[EvReadAll raw (Some e), EvLog ''ioutil.ReadAll(rawResponse.Body)'' e]"
    from ReadError(3) show ?thesis
    proof (elim disjE exE conjE)
      assume a: "h c (resolvedName c rq) = None" "T = [EvClientDo (Some raw) terr']"
      from key [of "[]" "Some raw" terr' "[]" ?W] ReadError(2) a(2)
      have "?e = EvClientDo (Some raw) terr' \<and> pre_i = ?G # ?R @ [] \<and> post_i = [] @ EvNow # EvNow # ?W"
        by simp
      with a ReadError(1) show ?thesis by (intro fin [of "[]" "[]" ?W]) simp_all
    next
      fix b err0
      assume a: "h c (resolvedName c rq) = Some b"
        "T = [EvExecute b TODO, EvClientDo (Some raw) terr', EvExecuted b err0]"
      from key [of "[EvExecute b TODO]" "Some raw" terr' "[EvExecuted b err0]" ?W] ReadError(2) a(2)
      have "?e = EvClientDo (Some raw) terr' \<and> pre_i = ?G # ?R @ [EvExecute b TODO] \<and>
          post_i = [EvExecuted b err0] @ EvNow # EvNow # ?W"
        by simp
      with a ReadError(1) show ?thesis
        by (intro fin [of "[EvExecute b TODO]" "[EvExecuted b err0]" ?W]) simp_all
    qed
  next
    case (CloseError T terr' raw e)
    let ?W = "[EvReadAll raw None, EvClose raw (Some e), EvLog ''rawResponse.Body.Close()'' e]"
    from CloseError(3) show ?thesis
    proof (elim disjE exE conjE)
      assume a: "h c (resolvedName c rq) = None" "T = [EvClientDo (Some raw) terr']"
      from key [of "[]" "Some raw" terr' "[]" ?W] CloseError(2) a(2)
      have "?e = EvClientDo (Some raw) terr' \<and> pre_i = ?G # ?R @ [] \<and> post_i = [] @ EvNow # EvNow # ?W"
        by simp
      with a CloseError(1) show ?thesis by (intro fin [of "[]" "[]" ?W]) simp_all
    next
      fix b err0
      assume a: "h c (resolvedName c rq) = Some b"
        "T = [EvExecute b TODO, EvClientDo (Some raw) terr', EvExecuted b err0]"
      from key [of "[EvExecute b TODO]" "Some raw" terr' "[EvExecuted b err0]" ?W] CloseError(2) a(2)
      have "?e = EvClientDo (Some raw) terr' \<and> pre_i = ?G # ?R @ [EvExecute b TODO] \<and>
          post_i = [EvExecuted b err0] @ EvNow # EvNow # ?W"
        by simp
      with a CloseError(1) show ?thesis
        by (intro fin [of "[EvExecute b TODO]" "[EvExecuted b err0]" ?W]) simp_all
    qed
  next
    case (Open b rr' ce err0 resp err)
    let ?W = "readEvents rr' @ [EvIsOpen b True]"
    from key [of "[EvExecute b TODO]" rr' "Some ce" "[EvExecuted b err0]" ?W] Open(3)
    have "?e = EvClientDo rr' (Some ce) \<and> pre_i = ?G # ?R @ [EvExecute b TODO] \<and>
        post_i = [EvExecuted b err0] @ EvNow # EvNow # ?W"
      by simp
    with Open(1) show ?thesis
      by (intro fin [of "[EvExecute b TODO]" "[EvExecuted b err0]" ?W]) auto
  next
    case (Voted T rr' err0 Q resp err n v S)
    let ?V = "votes (Some resp) err n v @ S"
    have fS: "filter isClientDo S = []" "filter isIsOpen S = []" using Voted(7) by auto
    from Voted(2) show ?thesis
    proof (elim disjE exE conjE)
      assume a: "h c (resolvedName c rq) = None" "T = [EvClientDo rr' err0]" "Q = []"
      from key [of "[]" rr' err0 "[]" "readEvents rr' @ ?V"] Voted(1) a(2,3) fS(1)
      have "?e = EvClientDo rr' err0 \<and> pre_i = ?G # ?R @ [] \<and>
          post_i = [] @ EvNow # EvNow # readEvents rr' @ ?V"
        by simp
      with a fS(2) show ?thesis by (intro fin [of "[]" "[]" "readEvents rr' @ ?V"]) simp_all
    next
      fix b
      assume a: "h c (resolvedName c rq) = Some b" "T = [EvExecute b TODO, EvExecuted b err0]"
        "rr' = None" "Q = []"
      from trace_split [OF Voted(1) tr] a(2-4) fS(1) show ?thesis
        by (auto split: if_splits dest: votes_mem simp: readEvents_def filter_empty_conv)
    next
      fix b
      assume a: "h c (resolvedName c rq) = Some b"
        "T = [EvExecute b TODO, EvClientDo rr' None, EvExecuted b err0]" "Q = []"
      from key [of "[EvExecute b TODO]" rr' None "[EvExecuted b err0]" "readEvents rr' @ ?V"]
        Voted(1) a(2,3) fS(1)
      have "?e = EvClientDo rr' None \<and> pre_i = ?G # ?R @ [EvExecute b TODO] \<and>
          post_i = [EvExecuted b err0] @ EvNow # EvNow # readEvents rr' @ ?V"
        by simp
      with a fS(2) show ?thesis
        by (intro fin [of "[EvExecute b TODO]" "[EvExecuted b err0]" "readEvents rr' @ ?V"]) simp_all
    next
      fix b ce
      assume a: "h c (resolvedName c rq) = Some b"
        "T = [EvExecute b TODO, EvClientDo rr' (Some ce), EvExecuted b err0]" "Q = [EvIsOpen b False]"
      from key [of "[EvExecute b TODO]" rr' "Some ce" "[EvExecuted b err0]"
          "readEvents rr' @ EvIsOpen b False # ?V"]
        Voted(1) a(2,3) fS(1)
      have "?e = EvClientDo rr' (Some ce) \<and> pre_i = ?G # ?R @ [EvExecute b TODO] \<and>
          post_i = [EvExecuted b err0] @ EvNow # EvNow # readEvents rr' @ EvIsOpen b False # ?V"
        by simp
      with a show ?thesis
        by (intro fin [of "[EvExecute b TODO]" "[EvExecuted b err0]"
              "readEvents rr' @ EvIsOpen b False # ?V"]) auto
    qed
  qed
qed

lemma attempt_IsOpen:
  assumes run: "attempt c x rq count s = (out, s')"
    and tr: "trace s' = trace s @ pre_i @ EvIsOpen b v # post_i"
  shows "(\<exists>rr ce err0. pre_i = EvGetCircuit (resolvedName c rq) (h c (resolvedName c rq)) #
            (if 1 \<le> count then [EvReqBody None] else []) @
            [EvExecute b TODO, EvClientDo rr (Some ce), EvExecuted b err0, EvNow, EvNow] @ readEvents rr) \<and>
         (if v then post_i = [] \<and> (\<exists>err resp. out = Break err resp)
          else filter isIsOpen post_i = [])"
proof -
  let ?G = "EvGetCircuit (resolvedName c rq) (h c (resolvedName c rq))"
  let ?R = "if 1 \<le> count then [EvReqBody None] else []"
  let ?e = "EvIsOpen b v"
  from run show ?thesis
  proof (cases rule: attempt_cases)
    case (BodyError e)
    from trace_split [OF BodyError(3) tr] show ?thesis by auto
  next
    case (Panic T)
    from trace_split [OF Panic(2) tr] Panic(3) show ?thesis by (auto split: if_splits)
  next
    case (ReadError T terr' raw e)
    from trace_split [OF ReadError(2) tr] ReadError(3) show ?thesis by (auto split: if_splits)
  next
    case (CloseError T terr' raw e)
    from trace_split [OF CloseError(2) tr] CloseError(3) show ?thesis by (auto split: if_splits)
  next
    case (Open b' rr ce err0 resp err)
    let ?X = "?G # ?R @ [EvExecute b' TODO, EvClientDo rr (Some ce), EvExecuted b' err0, EvNow, EvNow] @
        readEvents rr"
    from trace_split [OF Open(3) tr]
    have "?X @ EvIsOpen b' True # [] = pre_i @ ?e # post_i" by simp
    from kind_split [OF this, of isIsOpen]
    have "?e = EvIsOpen b' True \<and> pre_i = ?X \<and> post_i = []" by auto
    with Open(2) show ?thesis by auto
  next
    case (Voted T rr err0 Q resp err n v' S)
    let ?V = "votes (Some resp) err n v' @ S"
    have fS: "filter isIsOpen S = []" using Voted(7) by auto
    from trace_split [OF Voted(1) tr]
    have eq: "(?G # ?R @ T @ [EvNow, EvNow] @ readEvents rr) @ Q @ ?V = pre_i @ ?e # post_i"
      and mem: "?e \<in> set (?G # ?R @ T @ [EvNow, EvNow] @ readEvents rr @ Q @ ?V)"
      by simp_all
    have "Q \<noteq> []"
    proof
      assume "Q = []"
      with mem Voted(2) fS show False
        by (auto split: if_splits dest: readEvents_mem votes_mem simp: filter_empty_conv)
    qed
    with Voted(2) obtain b' ce where
      T: "T = [EvExecute b' TODO, EvClientDo rr (Some ce), EvExecuted b' err0]" "Q = [EvIsOpen b' False]"
      by auto
    with eq have "(?G # ?R @ T @ [EvNow, EvNow] @ readEvents rr) @ EvIsOpen b' False # ?V = pre_i @ ?e # post_i"
      by simp
    from kind_split [OF this, of isIsOpen] T(1) fS
    have "?e = EvIsOpen b' False \<and> pre_i = ?G # ?R @ T @ [EvNow, EvNow] @ readEvents rr \<and> post_i = ?V"
      by auto
    with T(1) fS show ?thesis by auto
  qed
qed

lemma votes_split:
  assumes "votes r e' n v0 = mp @ EvRetryHook k resp err v # mq"
  shows "resp = r \<and> err = e' \<and> mp = map (\<lambda>j. EvRetryHook j r e' False) [0..<k] \<and>
    (if v then k = n \<and> v0 \<and> mq = []
     else k < n \<and> mq = map (\<lambda>j. EvRetryHook j r e' False) [Suc k..<n] @
                          (if v0 then [EvRetryHook n r e' True] else []))"
proof -
  let ?f = "\<lambda>j. EvRetryHook j r e' False"
  let ?l = "if v0 then [EvRetryHook n r e' True] else []"
  let ?e = "EvRetryHook k resp err v"
  from assms have mem: "?e \<in> set (votes r e' n v0)" by simp
  then have re: "resp = r" "err = e'" by (auto dest: votes_mem)
  show ?thesis
  proof (cases v)
    case True
    with mem have kv: "k = n" "v0" by (auto simp: votes_def split: if_splits)
    with assms True re have "map ?f [0..<n] @ ?e # [] = mp @ ?e # mq" by (simp add: votes_def)
    moreover have "?e \<notin> set (map ?f [0..<n])" "?e \<notin> set []"
      using True by auto
    ultimately have "mp = map ?f [0..<n] \<and> mq = []"
      by (rule unique_split)
    with kv True re show ?thesis by simp
  next
    case False
    with mem have kn: "k < n" by (auto simp: votes_def split: if_splits)
    then have "[0..<n] = [0..<k] @ k # [Suc k..<n]"
      by (metis le_add1 less_imp_add_positive upt_add_eq_append upt_conv_Cons zero_le)
    then have "map ?f [0..<n] = map ?f [0..<k] @ ?f k # map ?f [Suc k..<n]" by simp
    with assms False re have "map ?f [0..<k] @ ?e # (map ?f [Suc k..<n] @ ?l) = mp @ ?e # mq"
      by (simp add: votes_def)
    moreover have "?e \<notin> set (map ?f [0..<k])" "?e \<notin> set (map ?f [Suc k..<n] @ ?l)"
      using False re by auto
    ultimately have "mp = map ?f [0..<k] \<and> mq = map ?f [Suc k..<n] @ ?l"
      by (rule unique_split)
    with kn False re show ?thesis by simp
  qed
qed


lemma attempt_RetryHook:
  assumes run: "attempt c x rq count s = (out, s')"
    and tr: "trace s' = trace s @ pre_i @ EvRetryHook k resp err v # post_i"
  shows "\<exists>T rr err0 Q rp.
     pre_i = EvGetCircuit (resolvedName c rq) (h c (resolvedName c rq)) #
             (if 1 \<le> count then [EvReqBody None] else []) @ T @ [EvNow, EvNow] @ readEvents rr @ Q @
             map (\<lambda>j. EvRetryHook j resp err False) [0..<k] \<and>
     ((h c (resolvedName c rq) = None \<and> T = [EvClientDo rr err0] \<and> Q = []) \<or>
      (\<exists>b. h c (resolvedName c rq) = Some b \<and> T = [EvExecute b TODO, EvExecuted b err0] \<and> rr = None \<and>
           err0 \<noteq> None \<and> Q = []) \<or>
      (\<exists>b. h c (resolvedName c rq) = Some b \<and> T = [EvExecute b TODO, EvClientDo rr None, EvExecuted b err0] \<and>
           Q = []) \<or>
      (\<exists>b ce. h c (resolvedName c rq) = Some b \<and>
           T = [EvExecute b TODO, EvClientDo rr (Some ce), EvExecuted b err0] \<and> Q = [EvIsOpen b False])) \<and>
     resp = Some rp \<and> rawResponse rp = rr \<and>
     request rp = rq\<lparr>rawRequest := rawRequest (request rp), prof := prof (request rp)\<rparr> \<and>
     (if rr = None then body rp = None \<and> statusCode rp = 0 \<and> err = err0
      else body rp \<noteq> None \<and> statusCode rp = StatusCode (the rr) \<and> err = None) \<and>
     k < length (retryHooks c) \<and>
     (if v then
        (post_i = [] \<and> (\<exists>e' r'. out = Break e' r') \<and> (retry c < count + 1 \<or> stg c = None)) \<or>
        (\<exists>d. post_i = [EvBackoff (count + 1) d, EvAfter d] \<and> isContinue out \<and>
             count + 1 \<le> retry c \<and> stg c \<noteq> None)
      else
        (Suc k < length (retryHooks c) \<and> (\<exists>v' post'. post_i = EvRetryHook (Suc k) resp err v' # post')) \<or>
        (Suc k = length (retryHooks c) \<and> post_i = [] \<and> (\<exists>e' r'. out = Break e' r')))"
proof -
  let ?G = "EvGetCircuit (resolvedName c rq) (h c (resolvedName c rq))"
  let ?R = "if 1 \<le> count then [EvReqBody None] else []"
  let ?e = "EvRetryHook k resp err v"
  from run show ?thesis
  proof (cases rule: attempt_cases)
    case (BodyError e)
    from trace_split [OF BodyError(3) tr] show ?thesis by auto
  next
    case (Panic T)
    from trace_split [OF Panic(2) tr] Panic(3) show ?thesis by (auto split: if_splits)
  next
    case (ReadError T terr' raw e)
    from trace_split [OF ReadError(2) tr] ReadError(3) show ?thesis by (auto split: if_splits)
  next
    case (CloseError T terr' raw e)
    from trace_split [OF CloseError(2) tr] CloseError(3) show ?thesis by (auto split: if_splits)
  next
    case (Open b rr ce err0 resp' err')
    from trace_split [OF Open(3) tr] show ?thesis by (auto split: if_splits dest: readEvents_mem)
  next
    case (Voted T rr err0 Q rp err' n v0 S)
    let ?X = "?G # ?R @ T @ [EvNow, EvNow] @ readEvents rr @ Q"
    let ?f = "\<lambda>j. EvRetryHook j (Some rp) err' False"
    have nX: "?e \<notin> set ?X"
      using Voted(2) by (auto split: if_splits dest: readEvents_mem)
    have nS: "?e \<notin> set S" using Voted(7) by auto
    from trace_split [OF Voted(1) tr]
    have "?X @ votes (Some rp) err' n v0 @ S = pre_i @ ?e # post_i" by simp
    from mid_split [OF this nX nS] obtain mp mq where
      m: "votes (Some rp) err' n v0 = mp @ ?e # mq" "pre_i = ?X @ mp" "post_i = mq @ S" by blast
    from votes_split [OF m(1)] have
      vs: "resp = Some rp" "err = err'" "mp = map ?f [0..<k]"
        "if v then k = n \<and> v0 \<and> mq = []
         else k < n \<and> mq = map ?f [Suc k..<n] @ (if v0 then [EvRetryHook n (Some rp) err' True] else [])"
      by simp_all
    have kn: "k < length (retryHooks c)"
      using vs(4) Voted(6) by (auto split: if_splits)
    have post: "if v then
        (post_i = [] \<and> (\<exists>e' r'. out = Break e' r') \<and> (retry c < count + 1 \<or> stg c = None)) \<or>
        (\<exists>d. post_i = [EvBackoff (count + 1) d, EvAfter d] \<and> isContinue out \<and>
             count + 1 \<le> retry c \<and> stg c \<noteq> None)
      else
        (Suc k < length (retryHooks c) \<and> (\<exists>v' post'. post_i = EvRetryHook (Suc k) resp err v' # post')) \<or>
        (Suc k = length (retryHooks c) \<and> post_i = [] \<and> (\<exists>e' r'. out = Break e' r'))"
    proof (cases v)
      case True
      with vs(4) m(3) have "post_i = S" "v0" by auto
      with True Voted(7) show ?thesis by auto
    next
      case False
      with vs(4) have k: "k < n" "mq = map ?f [Suc k..<n] @ (if v0 then [EvRetryHook n (Some rp) err' True] else [])"
        by auto
      show ?thesis
      proof (cases "Suc k < n")
        case True
        then have "[Suc k..<n] = Suc k # [Suc (Suc k)..<n]" by (simp add: upt_conv_Cons)
        with k(2) m(3) vs(1,2) have "\<exists>v' post'. post_i = EvRetryHook (Suc k) resp err v' # post'" by auto
        moreover from True Voted(6) have "Suc k < length (retryHooks c)" by (auto split: if_splits)
        ultimately show ?thesis using False by simp
      next
        case nlt: False
        with k(1) have n: "n = Suc k" by simp
        show ?thesis
        proof (cases v0)
          case True
          with n k(2) m(3) vs(1,2) have "\<exists>v' post'. post_i = EvRetryHook (Suc k) resp err v' # post'" by auto
          moreover from True n Voted(6) have "Suc k < length (retryHooks c)" by simp
          ultimately show ?thesis using False by simp
        next
          case v0f: False
          with n k(2) m(3) have "post_i = S" by simp
          moreover from v0f n Voted(6) have "Suc k = length (retryHooks c)" by simp
          moreover from v0f Voted(7) have "S = []" "\<exists>e' r'. out = Break e' r'" by auto
          ultimately show ?thesis using False by simp
        qed
      qed
    qed
    from m(2) vs(1-3) have pre: "pre_i = ?G # ?R @ T @ [EvNow, EvNow] @ readEvents rr @ Q @
             map (\<lambda>j. EvRetryHook j resp err False) [0..<k]" by simp
    have errs: "if rr = None then body rp = None \<and> statusCode rp = 0 \<and> err = err0
      else body rp \<noteq> None \<and> statusCode rp = StatusCode (the rr) \<and> err = None"
      using Voted(5) vs(2) by simp
    show ?thesis
      apply (rule exI [of _ T], rule exI [of _ rr], rule exI [of _ err0], rule exI [of _ Q],
          rule exI [of _ rp])
      apply (intro conjI)
             apply (rule pre)
            apply (rule Voted(2))
           apply (rule vs(1))
          apply (rule Voted(3))
         apply (rule Voted(4))
        apply (rule errs)
       apply (rule kn)
      apply (rule post)
      done
  qed
qed

subsection \<open>A body that cannot be built\<close>

text \<open>
  C7. When the first \<^verbatim>\<open>request.ReqBody()\<close> of \<^verbatim>\<open>Do\<close> fails with \<open>e\<close>, \<^verbatim>\<open>Do\<close>
  returns \<open>e\<close> and the only calls it has made are that \<^verbatim>\<open>ReqBody\<close> and the log of
  the error: no hook of any chain, no construction of the transport request, no
  transport attempt.
\<close>

theorem Do_ReqBody_error_runs_nothing:
  "fst (ReqBody x rq w) = Inl e \<Longrightarrow>
   Do c x ctx rq (start w) =
     (Inl (Returned e),
      \<lparr>world = snd (ReqBody x rq w),
       trace = [EvReqBody (Some e), EvLog ''request.reqBody'' e]\<rparr>)"
  by (cases "ReqBody x rq w") (simp add: Do_def emit_def start_def)

theorem Do_ReqBody_error_runs_nothing_witness:
  "fst (ReqBody noBody ping 0) = Inl (Error ''marshal'') \<and>
   Do bare noBody Background ping (start 0) =
     (Inl (Returned (Error ''marshal'')),
      \<lparr>world = 0, trace = [EvReqBody (Some (Error ''marshal'')),
                           EvLog ''request.reqBody'' (Error ''marshal'')]\<rparr>)"
  using Do_ReqBody_error_runs_nothing [of noBody ping 0 "Error ''marshal''" bare Background]
  by (simp add: noBody_def plain_def)

subsection \<open>Hook chains\<close>

lemma before_hook_error:
  assumes run: "Do c x ctx rq (start w) = (res, s')"
    and tr: "trace s' = pre @ EvBeforeRequestHook k (Some e) # post"
  shows "res = Inl (Returned e) \<and> post = [] \<and>
         pre = EvReqBody None # map (\<lambda>j. EvBeforeRequestHook j None) [0..<k]"
proof -
  let ?x = "EvBeforeRequestHook k (Some e)"
  have mem: "?x \<in> set (trace s')" using tr by simp
  from run show ?thesis
  proof (cases rule: Do_cases)
    case (ReqBody e0)
    with mem show ?thesis by simp
  next
    case (Before k0 e0)
    with mem have eq: "k0 = k" "e0 = e" by auto
    with Before tr have split: "(EvReqBody None # map (\<lambda>j. EvBeforeRequestHook j None) [0..<k]) @ ?x # [] = pre @ ?x # post"
      by simp
    have "pre = EvReqBody None # map (\<lambda>j. EvBeforeRequestHook j None) [0..<k] \<and> post = []"
      using split
      by (rule unique_split) auto
    with Before eq show ?thesis by simp
  next
    case (NewRequest m u b e0)
    with mem show ?thesis by auto
  next
    case (RequestHook m u b k0 e0)
    with mem show ?thesis by auto
  next
    case (Loop m u b rq2 s2 gr s3 tail)
    from genReply_events [OF Loop(2)] obtain evs where
      evs: "trace s3 = trace s2 @ evs" "list_all loopEvent evs" by blast
    have "?x \<notin> set evs" using evs(2) by (rule loopEvent_notin) simp
    moreover have "?x \<notin> set tail" using Loop(4) by auto
    moreover have "?x \<notin> set (trace s2)" using Loop(1) by auto
    ultimately show ?thesis using mem Loop(3) evs(1) by simp
  qed
qed


lemma request_hook_error:
  assumes run: "Do c x ctx rq (start w) = (res, s')"
    and tr: "trace s' = pre @ EvRequestHook k (Some e) # post"
  shows "res = Inl (Returned e) \<and> post = [] \<and>
         (\<exists>m u b. pre = EvReqBody None #
            map (\<lambda>j. EvBeforeRequestHook j None) [0..<length (beforeRequestHooks c)] @
            EvNewRequest ctx m u b # map (\<lambda>j. EvRequestHook j None) [0..<k])"
proof -
  let ?x = "EvRequestHook k (Some e)"
  have mem: "?x \<in> set (trace s')" using tr by simp
  from run show ?thesis
  proof (cases rule: Do_cases)
    case (ReqBody e0)
    with mem show ?thesis by simp
  next
    case (Before k0 e0)
    with mem show ?thesis by auto
  next
    case (NewRequest m u b e0)
    with mem show ?thesis by auto
  next
    case (RequestHook m u b k0 e0)
    with mem have eq: "k0 = k" "e0 = e" by auto
    let ?ys = "EvReqBody None #
            map (\<lambda>j. EvBeforeRequestHook j None) [0..<length (beforeRequestHooks c)] @
            EvNewRequest ctx m u b # map (\<lambda>j. EvRequestHook j None) [0..<k]"
    from RequestHook tr eq have split: "?ys @ ?x # [] = pre @ ?x # post" by simp
    have "pre = ?ys \<and> post = []"
      using split by (rule unique_split) auto
    with RequestHook eq show ?thesis by blast
  next
    case (Loop m u b rq2 s2 gr s3 tail)
    from genReply_events [OF Loop(2)] obtain evs where
      evs: "trace s3 = trace s2 @ evs" "list_all loopEvent evs" by blast
    have "?x \<notin> set evs" using evs(2) by (rule loopEvent_notin) simp
    moreover have "?x \<notin> set tail" using Loop(4) by auto
    moreover have "?x \<notin> set (trace s2)" using Loop(1) by auto
    ultimately show ?thesis using mem Loop(3) evs(1) by simp
  qed
qed

lemma response_hook_error:
  assumes run: "Do c x ctx rq (start w) = (res, s')"
    and tr: "trace s' = pre @ EvResponseHook k rep (Some e) # post"
  shows "res = Inl (Returned e) \<and> post = [EvLog ''hook(c, resp)'' e] \<and>
         (\<exists>pre'. pre = pre' @ map (\<lambda>j. EvResponseHook j rep None) [0..<k] \<and>
                 filter isResponseHook pre' = [])"
proof -
  let ?x = "EvResponseHook k rep (Some e)"
  have mem: "?x \<in> set (trace s')" using tr by simp
  from run show ?thesis
  proof (cases rule: Do_cases)
    case (ReqBody e0)
    with mem show ?thesis by simp
  next
    case (Before k0 e0)
    with mem show ?thesis by auto
  next
    case (NewRequest m u b e0)
    with mem show ?thesis by auto
  next
    case (RequestHook m u b k0 e0)
    with mem show ?thesis by auto
  next
    case (Loop m u b rq2 s2 gr s3 tail)
    from genReply_events [OF Loop(2)] obtain evs where
      evs: "trace s3 = trace s2 @ evs" "list_all loopEvent evs" by blast
    have n1: "?x \<notin> set evs" using evs(2) by (rule loopEvent_notin) simp
    have n2: "?x \<notin> set (trace s2)" using Loop(1) by auto
    have n3: "?x \<notin> set (trace s3)" using n1 n2 evs(1) by simp
    with mem Loop(3) have "?x \<in> set tail" by simp
    with Loop(4) have tail: "res = Inl (Returned e)"
      "tail = map (\<lambda>j. EvResponseHook j rep None) [0..<k] @ [?x, EvLog ''hook(c, resp)'' e]"
      by auto
    let ?ys = "trace s3 @ map (\<lambda>j. EvResponseHook j rep None) [0..<k]"
    from tail Loop(3) tr have split: "?ys @ ?x # [EvLog ''hook(c, resp)'' e] = pre @ ?x # post"
      by simp
    have ps: "pre = ?ys \<and> post = [EvLog ''hook(c, resp)'' e]"
      using split by (rule unique_split) (use n3 in auto)
    have "filter isResponseHook evs = []"
      using evs(2) by (induction evs) (auto elim: loopEvent.elims)
    then have "filter isResponseHook (trace s3) = []"
      using evs(1) Loop(1) by (simp add: filter_empty_conv)
    with ps tail show ?thesis by blast
  qed
qed

text \<open>
  C4. In a call of \<^verbatim>\<open>Do\<close>, take any hook of the before-request, request or
  response chain that returned an error \<open>e\<close>, at position \<open>k\<close> of its chain. Then
  \<^verbatim>\<open>Do\<close> returns exactly \<open>e\<close>. The hooks \<open>0, \<dots>, k - 1\<close> of the chain ran just
  before it, in this order, each without error. Nothing runs after a failing
  before-request or request hook (no later hook, no later chain, no transport
  attempt: the hook's event is the last of the trace, and no event of the attempt
  loop precedes it); after a failing response hook only the error is logged.
\<close>

theorem hook_error_ends_Do:
  assumes "Do c x ctx rq (start w) = (res, s')"
  shows
    "(\<forall>pre k e post. trace s' = pre @ EvBeforeRequestHook k (Some e) # post \<longrightarrow>
        res = Inl (Returned e) \<and> post = [] \<and>
        pre = EvReqBody None # map (\<lambda>j. EvBeforeRequestHook j None) [0..<k]) \<and>
     (\<forall>pre k e post. trace s' = pre @ EvRequestHook k (Some e) # post \<longrightarrow>
        res = Inl (Returned e) \<and> post = [] \<and>
        (\<exists>m u b. pre = EvReqBody None #
            map (\<lambda>j. EvBeforeRequestHook j None) [0..<length (beforeRequestHooks c)] @
            EvNewRequest ctx m u b # map (\<lambda>j. EvRequestHook j None) [0..<k])) \<and>
     (\<forall>pre k rep e post. trace s' = pre @ EvResponseHook k rep (Some e) # post \<longrightarrow>
        res = Inl (Returned e) \<and> post = [EvLog ''hook(c, resp)'' e] \<and>
        (\<exists>pre'. pre = pre' @ map (\<lambda>j. EvResponseHook j rep None) [0..<k] \<and>
                filter isResponseHook pre' = []))"
  using before_hook_error [OF assms] request_hook_error [OF assms] response_hook_error [OF assms]
  by blast

theorem hook_error_ends_Do_witness:
  "fst (Do beforeDenies plain Background ping (start 0)) = Inl (Returned (Error ''denied'')) \<and>
   trace (snd (Do beforeDenies plain Background ping (start 0))) =
     [EvReqBody None, EvBeforeRequestHook 0 None, EvBeforeRequestHook 1 (Some (Error ''denied''))] \<and>
   fst (Do requestDenies plain Background ping (start 0)) = Inl (Returned (Error ''no token'')) \<and>
   trace (snd (Do requestDenies plain Background ping (start 0))) =
     [EvReqBody None, EvBeforeRequestHook 0 None,
      EvNewRequest Background ''GET'' ''http://host/ping'' [],
      EvRequestHook 0 None, EvRequestHook 1 (Some (Error ''no token''))] \<and>
   fst (Do responseDenies plain Background ping (start 0)) = Inl (Returned (Error ''bad reply'')) \<and>
   trace (snd (Do responseDenies plain Background ping (start 0))) =
     [EvReqBody None, EvNewRequest Background ''GET'' ''http://host/ping'' [],
      EvGetCircuit [] None, EvClientDo (Some \<lparr>StatusCode = 200, BodyStream = 0\<rparr>) None,
      EvNow, EvNow, EvReadAll \<lparr>StatusCode = 200, BodyStream = 0\<rparr> None,
      EvClose \<lparr>StatusCode = 200, BodyStream = 0\<rparr> None,
      EvResponseHook 0 (Some (pong Background)) None,
      EvResponseHook 1 (Some (pong Background)) (Some (Error ''bad reply'')),
      EvLog ''hook(c, resp)'' (Error ''bad reply'')]"
proof -
  let ?b = "Do beforeDenies plain Background ping (start 0)"
  let ?q = "Do requestDenies plain Background ping (start 0)"
  let ?p = "Do responseDenies plain Background ping (start 0)"
  have tb: "trace (snd ?b) = [EvReqBody None, EvBeforeRequestHook 0 None] @
      EvBeforeRequestHook 1 (Some (Error ''denied'')) # []"
    by code_simp
  have tq: "trace (snd ?q) = [EvReqBody None, EvBeforeRequestHook 0 None,
      EvNewRequest Background ''GET'' ''http://host/ping'' [], EvRequestHook 0 None] @
      EvRequestHook 1 (Some (Error ''no token'')) # []"
    by code_simp
  have tp: "trace (snd ?p) =
     [EvReqBody None, EvNewRequest Background ''GET'' ''http://host/ping'' [],
      EvGetCircuit [] None, EvClientDo (Some \<lparr>StatusCode = 200, BodyStream = 0\<rparr>) None,
      EvNow, EvNow, EvReadAll \<lparr>StatusCode = 200, BodyStream = 0\<rparr> None,
      EvClose \<lparr>StatusCode = 200, BodyStream = 0\<rparr> None,
      EvResponseHook 0 (Some (pong Background)) None] @
      EvResponseHook 1 (Some (pong Background)) (Some (Error ''bad reply'')) #
      [EvLog ''hook(c, resp)'' (Error ''bad reply'')]"
    by code_simp
  have b: "fst ?b = Inl (Returned (Error ''denied''))"
    using hook_error_ends_Do [of beforeDenies plain Background ping 0 "fst ?b" "snd ?b",
        THEN conjunct1, rule_format, OF _ tb]
    by simp
  have q: "fst ?q = Inl (Returned (Error ''no token''))"
    using hook_error_ends_Do [of requestDenies plain Background ping 0 "fst ?q" "snd ?q",
        THEN conjunct2, THEN conjunct1, rule_format, OF _ tq]
    by simp
  have p: "fst ?p = Inl (Returned (Error ''bad reply''))"
    using hook_error_ends_Do [of responseDenies plain Background ping 0 "fst ?p" "snd ?p",
        THEN conjunct2, THEN conjunct2, rule_format, OF _ tp]
    by simp
  from b q p tb tq tp show ?thesis by (simp only: append.simps simp_thms)
qed

subsection \<open>The number of attempts\<close>

lemma rematerialize_counts:
  "rematerialize x rq count s = (r, s') \<Longrightarrow>
   filter isGetCircuit (trace s') = filter isGetCircuit (trace s) \<and>
   filter isClientDo (trace s') = filter isClientDo (trace s)"
  by (auto simp: rematerialize_def split: if_splits prod.splits sum.splits option.splits)

lemma clientDo_counts:
  "clientDo c rq s = (r, s') \<Longrightarrow>
   filter isGetCircuit (trace s') = filter isGetCircuit (trace s) \<and>
   length (filter isClientDo (trace s')) \<le> Suc (length (filter isClientDo (trace s)))"
  by (auto simp: clientDo_def split: if_splits prod.splits sum.splits option.splits)

lemma transport_counts:
  "transport c x cb rq s = (r, s') \<Longrightarrow>
   filter isGetCircuit (trace s') = filter isGetCircuit (trace s) \<and>
   length (filter isClientDo (trace s')) \<le> Suc (length (filter isClientDo (trace s)))"
  by (auto simp: transport_def split: if_splits prod.splits sum.splits option.splits dest!: clientDo_counts)

lemma stamp_counts:
  "stamp x rq s = (r, s') \<Longrightarrow>
   filter isGetCircuit (trace s') = filter isGetCircuit (trace s) \<and>
   filter isClientDo (trace s') = filter isClientDo (trace s)"
  by (auto simp: stamp_def split: if_splits prod.splits sum.splits option.splits)

lemma buildResponse_counts:
  "buildResponse x rq rr err s = (r, s') \<Longrightarrow>
   filter isGetCircuit (trace s') = filter isGetCircuit (trace s) \<and>
   filter isClientDo (trace s') = filter isClientDo (trace s)"
  by (auto simp: buildResponse_def Let_def split: if_splits prod.splits sum.splits option.splits)

lemma breakerOpen_counts:
  "breakerOpen x cb fb s = (r, s') \<Longrightarrow>
   filter isGetCircuit (trace s') = filter isGetCircuit (trace s) \<and>
   filter isClientDo (trace s') = filter isClientDo (trace s)"
  by (auto simp: breakerOpen_def Let_def split: if_splits prod.splits sum.splits option.splits)

lemma retryHooks_loop_counts:
  "retryHooks_loop i hooks resp err s = (v, s') \<Longrightarrow>
   filter isGetCircuit (trace s') = filter isGetCircuit (trace s) \<and>
   filter isClientDo (trace s') = filter isClientDo (trace s)"
  by (simp add: retryHooks_loop_filter)

lemma attempt_counts:
  assumes "attempt c x rq count s = (out, s')"
  shows "length (filter isGetCircuit (trace s')) = Suc (length (filter isGetCircuit (trace s))) \<and>
     length (filter isClientDo (trace s')) \<le> Suc (length (filter isClientDo (trace s)))"
  using assms unfolding attempt_def Let_def
  by (auto split: prod.splits sum.splits option.splits bool.splits if_splits
      dest!: rematerialize_counts transport_counts stamp_counts buildResponse_counts
             breakerOpen_counts retryHooks_loop_counts)


lemma genReply_loop_counts:
  assumes "genReply_loop c x rq count err resp s = (r, s')"
  shows "length (filter isGetCircuit (trace s')) \<le>
           length (filter isGetCircuit (trace s)) + nat (retry c + 1 - count) \<and>
         length (filter isClientDo (trace s')) + length (filter isGetCircuit (trace s)) \<le>
           length (filter isClientDo (trace s)) + length (filter isGetCircuit (trace s'))"
  using assms
proof (induction rule: genReply_loop_induct)
  case (Exit rq count err resp s)
  then show ?case by simp
next
  case (Break rq count err resp s err' resp' s1)
  from attempt_counts [OF Break(2)] Break(1) show ?case by auto
next
  case (Return rq count err resp s f s1)
  from attempt_counts [OF Return(2)] Return(1) show ?case by auto
next
  case (Continue rq count err resp s rq' err' resp' s1 r s')
  from attempt_counts [OF Continue(2)] Continue(1) Continue(4) show ?case by auto
qed

lemma genReply_counts:
  assumes "genReply c x rq s = (r, s')"
  shows "length (filter isGetCircuit (trace s')) \<le>
           length (filter isGetCircuit (trace s)) + nat (retry c + 1) \<and>
         length (filter isClientDo (trace s')) + length (filter isGetCircuit (trace s)) \<le>
           length (filter isClientDo (trace s)) + length (filter isGetCircuit (trace s'))"
proof -
  obtain lr s1 where l: "genReply_loop c x rq 0 None None s = (lr, s1)"
    by (cases "genReply_loop c x rq 0 None None s")
  with assms have "filter isGetCircuit (trace s') = filter isGetCircuit (trace s1)"
    "filter isClientDo (trace s') = filter isClientDo (trace s1)"
    by (auto simp: genReply_def split: sum.splits option.splits)
  with genReply_loop_counts [OF l] show ?thesis by simp
qed

text \<open>
  C1. In a call of \<^verbatim>\<open>Do\<close> the loop of \<^verbatim>\<open>genReply\<close> is entered at most
  \<^verbatim>\<open>retry + 1\<close> times (it starts at \<^verbatim>\<open>count = 0\<close>, an iteration runs only under
  \<^verbatim>\<open>count <= retry\<close> and adds one to \<^verbatim>\<open>count\<close>), and an iteration calls the
  transport at most once; so there are at most \<^verbatim>\<open>retry + 1\<close> transport attempts.
  For a negative \<^verbatim>\<open>retry\<close> there is none.
\<close>

theorem attempts_bounded_by_retry:
  "length (filter isClientDo (trace (snd (Do c x ctx rq (start w))))) \<le>
     length (filter isGetCircuit (trace (snd (Do c x ctx rq (start w))))) \<and>
   length (filter isGetCircuit (trace (snd (Do c x ctx rq (start w))))) \<le> nat (retry c + 1)"
proof -
  obtain res s' where run: "Do c x ctx rq (start w) = (res, s')"
    by (cases "Do c x ctx rq (start w)")
  have "length (filter isClientDo (trace s')) \<le> length (filter isGetCircuit (trace s')) \<and>
        length (filter isGetCircuit (trace s')) \<le> nat (retry c + 1)"
    using run
  proof (cases rule: Do_cases)
    case (Loop m u b rq2 s2 gr s3 tail)
    have z2: "filter isGetCircuit (trace s2) = []" "filter isClientDo (trace s2) = []"
      using Loop(1) by (simp_all add: filter_map comp_def)
    have zt: "filter isGetCircuit tail = []" "filter isClientDo tail = []"
      using Loop(4) by (auto simp add: filter_map comp_def)
    from genReply_counts [OF Loop(2)] z2 zt Loop(3) show ?thesis by simp
  qed (simp_all add: filter_map comp_def)
  with run show ?thesis by simp
qed

theorem attempts_bounded_by_retry_witness:
  "length (filter isClientDo (trace (snd (Do retrying plain Background ping (start 0))))) = 3 \<and>
   length (filter isGetCircuit (trace (snd (Do retrying plain Background ping (start 0))))) = 3 \<and>
   nat (retry retrying + 1) = 3"
proof -
  have "length (filter isClientDo (trace (snd (Do retrying plain Background ping (start 0))))) = 3"
    by code_simp
  moreover have "nat (retry retrying + 1) = 3"
    by code_simp
  ultimately show ?thesis
    using attempts_bounded_by_retry [of retrying plain Background ping 0] by simp
qed

subsection \<open>The context of the guarded call\<close>

text \<open>
  C9. The claim asks that \<^verbatim>\<open>cb.Execute\<close> be given the caller's context. Line 184
  passes \<^verbatim>\<open>context.TODO()\<close>. In this run the caller's context is the cancellable
  \<open>WithCancel 7\<close>: the transport request is built with it (line 126), and the
  breaker is executed with \<open>TODO\<close>.
\<close>

theorem Execute_gets_TODO:
  "trace (snd (Do guarded plain (WithCancel 7) ping (start 0))) =
     [EvReqBody None, EvNewRequest (WithCancel 7) ''GET'' ''http://host/ping'' [],
      EvGetCircuit ''svc'' (Some (Circuit 1)),
      EvExecute (Circuit 1) TODO,
      EvClientDo (Some \<lparr>StatusCode = 200, BodyStream = 0\<rparr>) None,
      EvExecuted (Circuit 1) None,
      EvNow, EvNow, EvReadAll \<lparr>StatusCode = 200, BodyStream = 0\<rparr> None,
      EvClose \<lparr>StatusCode = 200, BodyStream = 0\<rparr> None]"
  by code_simp

subsection \<open>The wait between two attempts\<close>

lemma attempt_Backoff:
  assumes "attempt c x rq count s = (out, s')"
    and tr: "trace s' = trace s @ pre_i @ EvBackoff k d # post_i"
  shows "k = count + 1 \<and> post_i = [EvAfter d] \<and> isContinue out \<and>
         (\<exists>backoff w. stg c = Some backoff \<and> d = fst (backoff k w))"
proof -
  let ?e = "EvBackoff k d"
  from assms(1) show ?thesis
  proof (cases rule: attempt_cases)
    case (BodyError e)
    from trace_split [OF BodyError(3) tr] show ?thesis by auto
  next
    case (Panic T)
    from trace_split [OF Panic(2) tr] Panic(3) show ?thesis by (auto split: if_splits)
  next
    case (ReadError T terr raw e)
    from trace_split [OF ReadError(2) tr] ReadError(3) show ?thesis by (auto split: if_splits)
  next
    case (CloseError T terr raw e)
    from trace_split [OF CloseError(2) tr] CloseError(3) show ?thesis by (auto split: if_splits)
  next
    case (Open b rr ce err0 resp err)
    from trace_split [OF Open(3) tr] show ?thesis by (auto split: if_splits dest: readEvents_mem)
  next
    case (Voted T rr err0 Q resp err n v S)
    let ?X = "EvGetCircuit (resolvedName c rq) (h c (resolvedName c rq)) #
        (if 1 \<le> count then [EvReqBody None] else []) @ T @ [EvNow, EvNow] @ readEvents rr @ Q @
         votes (Some resp) err n v"
    have nX: "?e \<notin> set ?X"
      using Voted(2) by (auto split: if_splits dest: readEvents_mem votes_mem)
    from Voted(1) have "trace s' = trace s @ ?X @ S" by simp
    from trace_split [OF this tr] have eq: "?X @ S = pre_i @ ?e # post_i" "?e \<in> set (?X @ S)"
      by blast+
    from eq(2) have "?e \<in> set ?X \<or> ?e \<in> set S" by (simp only: set_append Un_iff)
    with nX have "?e \<in> set S" by blast
    with Voted(7) obtain backoff w where
      S: "isContinue out" "stg c = Some backoff"
         "S = [EvBackoff (count + 1) (fst (backoff (count + 1) w)), EvAfter (fst (backoff (count + 1) w))]"
      by auto
    with \<open>?e \<in> set S\<close> have kd: "k = count + 1" "d = fst (backoff (count + 1) w)" by auto
    with eq S have "?X @ ?e # [EvAfter d] = pre_i @ ?e # post_i" by simp
    from unique_split [OF this nX] have "post_i = [EvAfter d]" by simp
    with kd S show ?thesis by auto
  qed
qed


lemma backoff_position:
  assumes "Do c x ctx rq (start w) = (res, s')"
    and tr: "trace s' = pre @ EvBackoff k d # post"
  shows "k = int (length (filter isGetCircuit pre)) \<and>
            (\<exists>backoff w'. stg c = Some backoff \<and> d = fst (backoff k w')) \<and>
            (\<exists>name cb post'. post = EvAfter d # EvGetCircuit name cb # post')"
proof -
  from Do_position [OF assms(1) tr] obtain rq_i n s_i out s_i' P A pre_i post_i Z where
    p: "attempt c x rq_i (int n) s_i = (out, s_i')"
      "trace s_i' = trace s_i @ pre_i @ EvBackoff k d # post_i"
      "pre = P @ A @ pre_i" "post = post_i @ Z"
      "filter attemptEvent P = []"
      "length (filter isGetCircuit A) = n"
      "case out of
         Continue rq' err' resp' \<Rightarrow> (\<exists>name cb Z'. Z = EvGetCircuit name cb # Z')
       | Return f \<Rightarrow> Z = [] \<and> res = Inl f
       | Break None resp' \<Rightarrow> filter attemptEvent Z = []
       | Break (Some err') resp' \<Rightarrow> Z = [EvLog ''c.client.Do'' err'] \<and> res = Inl (Returned err')"
    by auto
  from attempt_Backoff [OF p(1,2)] have b: "k = int n + 1" "post_i = [EvAfter d]" "isContinue out"
    "\<exists>backoff w. stg c = Some backoff \<and> d = fst (backoff k w)" by auto
  from attempt_prefix_count [OF p(1,2)] have "length (filter isGetCircuit pre_i) = 1" by simp
  with p(3,6) no_attemptEvent_no_GetCircuit [OF p(5)] b(1)
  have k: "k = int (length (filter isGetCircuit pre))" by simp
  from b(3) p(7) obtain name cb Z' where "Z = EvGetCircuit name cb # Z'"
    by (cases out) auto
  with p(4) b(2) have "\<exists>name cb post'. post = EvAfter d # EvGetCircuit name cb # post'" by simp
  with k b(4) show ?thesis by blast
qed

lemma attempt_start_position:
  assumes "Do c x ctx rq (start w) = (res, s')"
    and tr: "trace s' = pre @ EvGetCircuit name cb # post"
  shows "filter isGetCircuit pre = [] \<or>
            (\<exists>pre' d. pre = pre' @ [EvBackoff (int (length (filter isGetCircuit pre))) d, EvAfter d])"
proof -
  from Do_position [OF assms(1) tr] obtain rq_i n s_i out s_i' P A pre_i post_i Z where
    p: "attempt c x rq_i (int n) s_i = (out, s_i')"
      "trace s_i' = trace s_i @ pre_i @ EvGetCircuit name cb # post_i"
      "pre = P @ A @ pre_i"
      "filter attemptEvent P = []"
      "length (filter isGetCircuit A) = n"
      "if n = 0 then A = [] else (\<exists>A' d. A = A' @ [EvBackoff (int n) d, EvAfter d])"
    by auto
  from attempt_GetCircuit [OF p(1,2)] have "pre_i = []" by simp
  with p(3,5) no_attemptEvent_no_GetCircuit [OF p(4)]
  have n: "length (filter isGetCircuit pre) = n" "pre = P @ A" by simp_all
  show ?thesis
  proof (cases "n = 0")
    case True
    with n show ?thesis by simp
  next
    case False
    with p(6) obtain A' d where "A = A' @ [EvBackoff (int n) d, EvAfter d]" by auto
    with n have "pre = (P @ A') @ [EvBackoff (int (length (filter isGetCircuit pre))) d, EvAfter d]"
      by simp
    then show ?thesis by blast
  qed
qed

text \<open>
  C8. In a call of \<^verbatim>\<open>Do\<close>, whenever the backoff strategy is asked (line 235), it is
  asked for \<^verbatim>\<open>backoff(count)\<close> where \<^verbatim>\<open>count\<close> is the number of attempts begun so far,
  the one just finished included (the first retry asks for \<^verbatim>\<open>backoff(1)\<close>); the
  call then waits for exactly the duration \<open>d\<close> that the strategy returned, and the
  next attempt begins right after the wait. Conversely every attempt but the first
  begins right after such a wait.
\<close>

theorem backoff_between_attempts:
  assumes "Do c x ctx rq (start w) = (res, s')"
  shows "(\<forall>pre k d post. trace s' = pre @ EvBackoff k d # post \<longrightarrow>
            k = int (length (filter isGetCircuit pre)) \<and>
            (\<exists>backoff w'. stg c = Some backoff \<and> d = fst (backoff k w')) \<and>
            (\<exists>name cb post'. post = EvAfter d # EvGetCircuit name cb # post')) \<and>
         (\<forall>pre name cb post. trace s' = pre @ EvGetCircuit name cb # post \<longrightarrow>
            filter isGetCircuit pre = [] \<or>
            (\<exists>pre' d. pre = pre' @ [EvBackoff (int (length (filter isGetCircuit pre))) d, EvAfter d]))"
  using backoff_position [OF assms] attempt_start_position [OF assms] by blast

theorem backoff_between_attempts_witness:
  "trace (snd (Do retrying plain Background ping (start 0))) ! 9 = EvBackoff 1 0 \<and>
   int (length (filter isGetCircuit (take 9 (trace (snd (Do retrying plain Background ping (start 0))))))) = 1 \<and>
   take 2 (drop 10 (trace (snd (Do retrying plain Background ping (start 0))))) =
     [EvAfter 0, EvGetCircuit [] None] \<and>
   trace (snd (Do retrying plain Background ping (start 0))) ! 21 = EvGetCircuit [] None \<and>
   drop 19 (take 21 (trace (snd (Do retrying plain Background ping (start 0))))) =
     [EvBackoff 2 0, EvAfter 0]"
proof -
  let ?tr = "trace (snd (Do retrying plain Background ping (start 0)))"
  have run: "Do retrying plain Background ping (start 0) =
      (fst (Do retrying plain Background ping (start 0)), snd (Do retrying plain Background ping (start 0)))"
    by simp
  have s1: "?tr = take 9 ?tr @ EvBackoff 1 0 # drop 10 ?tr" by code_simp
  have s2: "?tr = take 21 ?tr @ EvGetCircuit [] None # drop 22 ?tr" by code_simp
  from backoff_between_attempts [OF run, THEN conjunct1, rule_format, OF s1]
  have a: "1 = int (length (filter isGetCircuit (take 9 ?tr)))" by blast
  from backoff_between_attempts [OF run, THEN conjunct2, rule_format, OF s2]
  have b: "filter isGetCircuit (take 21 ?tr) = [] \<or>
      (\<exists>pre' d. take 21 ?tr = pre' @ [EvBackoff (int (length (filter isGetCircuit (take 21 ?tr)))) d, EvAfter d])"
    by blast
  have c: "?tr ! 9 = EvBackoff 1 0" by code_simp
  have d: "take 2 (drop 10 ?tr) = [EvAfter 0, EvGetCircuit [] None]" by code_simp
  have e: "?tr ! 21 = EvGetCircuit [] None" by code_simp
  have f: "drop 19 (take 21 ?tr) = [EvBackoff 2 0, EvAfter 0]" by code_simp
  from a b c d e f show ?thesis by simp
qed

subsection \<open>Reading the body of a raw response\<close>

lemma clientDo_position:
  assumes run: "Do c x ctx rq (start w) = (res, s')"
    and tr: "trace s' = pre @ EvClientDo (Some raw) terr # post"
  shows "\<exists>Y post'. post = Y @ EvNow # EvNow # post' \<and> (Y = [] \<or> (\<exists>b err0. Y = [EvExecuted b err0])) \<and>
        ((\<exists>e. res = Inl (Returned e) \<and>
             post' = [EvReadAll raw (Some e), EvLog ''ioutil.ReadAll(rawResponse.Body)'' e]) \<or>
         (\<exists>e. res = Inl (Returned e) \<and>
             post' = [EvReadAll raw None, EvClose raw (Some e), EvLog ''rawResponse.Body.Close()'' e]) \<or>
         (\<exists>post''. post' = EvReadAll raw None # EvClose raw None # post''))"
proof -
  from Do_position [OF run tr] obtain rq_i n s_i out s_i' pre_i post_i Z where
    p: "attempt c x rq_i (int n) s_i = (out, s_i')"
      "trace s_i' = trace s_i @ pre_i @ EvClientDo (Some raw) terr # post_i"
      "post = post_i @ Z"
      "case out of
         Continue rq' err' resp' \<Rightarrow> (\<exists>name cb Z'. Z = EvGetCircuit name cb # Z')
       | Return f \<Rightarrow> Z = [] \<and> res = Inl f
       | Break None resp' \<Rightarrow> filter attemptEvent Z = []
       | Break (Some err') resp' \<Rightarrow> Z = [EvLog ''c.client.Do'' err'] \<and> res = Inl (Returned err')"
    by auto
  from attempt_ClientDo [OF p(1,2)] obtain X Y W where
    a0: "post_i = Y @ EvNow # EvNow # W"
      "(h c (resolvedName c rq_i) = None \<and> X = [] \<and> Y = []) \<or>
       (\<exists>b err0. h c (resolvedName c rq_i) = Some b \<and> X = [EvExecute b TODO] \<and> Y = [EvExecuted b err0])"
      "(\<exists>raw' e. Some raw = Some raw' \<and> out = Return (Returned e) \<and>
               W = [EvReadAll raw' (Some e), EvLog ''ioutil.ReadAll(rawResponse.Body)'' e]) \<or>
       (\<exists>raw' e. Some raw = Some raw' \<and> out = Return (Returned e) \<and>
               W = [EvReadAll raw' None, EvClose raw' (Some e), EvLog ''rawResponse.Body.Close()'' e]) \<or>
       (\<exists>W'. W = readEvents (Some raw) @ W' \<and>
               (if h c (resolvedName c rq_i) \<noteq> None \<and> terr \<noteq> None
                then (\<exists>v W''. W' = EvIsOpen (the (h c (resolvedName c rq_i))) v # W'')
                else filter isIsOpen W' = []))"
    by blast
  have a: "post_i = Y @ EvNow # EvNow # W" "Y = [] \<or> (\<exists>b err0. Y = [EvExecuted b err0])"
      "(\<exists>e. out = Return (Returned e) \<and>
               W = [EvReadAll raw (Some e), EvLog ''ioutil.ReadAll(rawResponse.Body)'' e]) \<or>
       (\<exists>e. out = Return (Returned e) \<and>
               W = [EvReadAll raw None, EvClose raw (Some e), EvLog ''rawResponse.Body.Close()'' e]) \<or>
       (\<exists>W'. W = readEvents (Some raw) @ W')"
    using a0 by auto
  from a(3) p(4) have "(\<exists>e. res = Inl (Returned e) \<and>
             W @ Z = [EvReadAll raw (Some e), EvLog ''ioutil.ReadAll(rawResponse.Body)'' e]) \<or>
         (\<exists>e. res = Inl (Returned e) \<and>
             W @ Z = [EvReadAll raw None, EvClose raw (Some e), EvLog ''rawResponse.Body.Close()'' e]) \<or>
         (\<exists>post''. W @ Z = EvReadAll raw None # EvClose raw None # post'')"
    by (auto simp: readEvents_def)
  with a(1,2) p(3) show ?thesis
    by (intro exI [of _ Y] exI [of _ "W @ Z"]) simp
qed

text \<open>
  C6. In a call of \<^verbatim>\<open>Do\<close>, after every transport call that returned a raw response
  (and, under a breaker, after the return of \<^verbatim>\<open>Execute\<close>) the two timestamps are
  taken and the body of that response is read in full. If the read fails with \<open>e\<close>,
  or the read succeeds and the close fails with \<open>e\<close>, the error is logged and
  \<^verbatim>\<open>Do\<close> returns \<open>e\<close>: the trace ends there, so no retry hook is asked and no
  further attempt is made, whatever the budget. Otherwise the body has been read and
  the stream closed before anything else happens.
\<close>

theorem body_error_aborts_Do:
  assumes "Do c x ctx rq (start w) = (res, s')"
  shows "\<forall>pre raw terr post. trace s' = pre @ EvClientDo (Some raw) terr # post \<longrightarrow>
    (\<exists>Y post'. post = Y @ EvNow # EvNow # post' \<and> (Y = [] \<or> (\<exists>b err0. Y = [EvExecuted b err0])) \<and>
        ((\<exists>e. res = Inl (Returned e) \<and>
             post' = [EvReadAll raw (Some e), EvLog ''ioutil.ReadAll(rawResponse.Body)'' e]) \<or>
         (\<exists>e. res = Inl (Returned e) \<and>
             post' = [EvReadAll raw None, EvClose raw (Some e), EvLog ''rawResponse.Body.Close()'' e]) \<or>
         (\<exists>post''. post' = EvReadAll raw None # EvClose raw None # post'')))"
  using clientDo_position [OF assms] by blast

theorem body_error_aborts_Do_witness:
  "fst (Do retrying unreadable Background ping (start 0)) = Inl (Returned (Error ''reset'')) \<and>
   trace (snd (Do retrying unreadable Background ping (start 0))) =
     [EvReqBody None, EvNewRequest Background ''GET'' ''http://host/ping'' [],
      EvGetCircuit [] None,
      EvClientDo (Some \<lparr>StatusCode = 500, BodyStream = 0\<rparr>) None, EvNow, EvNow,
      EvReadAll \<lparr>StatusCode = 500, BodyStream = 0\<rparr> (Some (Error ''reset'')),
      EvLog ''ioutil.ReadAll(rawResponse.Body)'' (Error ''reset'')] \<and>
   retry retrying = 2 \<and>
   fst (retryOn500 (Some \<lparr>request = ping, rawResponse = None, body = None, statusCode = 500\<rparr>) None 0)"
proof -
  let ?run = "Do retrying unreadable Background ping (start 0)"
  have run: "?run = (fst ?run, snd ?run)" by simp
  have tr: "trace (snd ?run) =
     [EvReqBody None, EvNewRequest Background ''GET'' ''http://host/ping'' [],
      EvGetCircuit [] None] @
      EvClientDo (Some \<lparr>StatusCode = 500, BodyStream = 0\<rparr>) None #
     [EvNow, EvNow,
      EvReadAll \<lparr>StatusCode = 500, BodyStream = 0\<rparr> (Some (Error ''reset'')),
      EvLog ''ioutil.ReadAll(rawResponse.Body)'' (Error ''reset'')]"
    by code_simp
  from body_error_aborts_Do [OF run, rule_format, OF tr]
  have "\<exists>e. fst ?run = Inl (Returned e) \<and> e = Error ''reset''"
    by (auto simp: Cons_eq_append_conv)
  moreover have "retry retrying = 2" by code_simp
  moreover have
    "fst (retryOn500 (Some \<lparr>request = ping, rawResponse = None, body = None, statusCode = 500\<rparr>) None 0)"
    by code_simp
  ultimately show ?thesis using tr by simp
qed

subsection \<open>An open breaker\<close>

lemma isOpen_position:
  assumes run: "Do c x ctx rq (start w) = (res, s')"
    and tr: "trace s' = pre @ EvIsOpen b True # post"
  shows "filter attemptEvent post = [] \<and>
         (\<exists>pre' rr ce err0. pre = pre' @
            [EvExecute b TODO, EvClientDo rr (Some ce), EvExecuted b err0, EvNow, EvNow] @ readEvents rr)"
proof -
  from Do_position [OF run tr] obtain rq_i n s_i out s_i' P A pre_i post_i Z where
    p: "attempt c x rq_i (int n) s_i = (out, s_i')"
      "trace s_i' = trace s_i @ pre_i @ EvIsOpen b True # post_i"
      "pre = P @ A @ pre_i" "post = post_i @ Z"
      "case out of
         Continue rq' err' resp' \<Rightarrow> (\<exists>name cb Z'. Z = EvGetCircuit name cb # Z')
       | Return f \<Rightarrow> Z = [] \<and> res = Inl f
       | Break None resp' \<Rightarrow> filter attemptEvent Z = []
       | Break (Some err') resp' \<Rightarrow> Z = [EvLog ''c.client.Do'' err'] \<and> res = Inl (Returned err')"
    by auto
  from attempt_IsOpen [OF p(1,2)] obtain rr ce err0 err resp where
    a: "pre_i = EvGetCircuit (resolvedName c rq_i) (h c (resolvedName c rq_i)) #
            (if 1 \<le> int n then [EvReqBody None] else []) @
            [EvExecute b TODO, EvClientDo rr (Some ce), EvExecuted b err0, EvNow, EvNow] @ readEvents rr"
      "post_i = []" "out = Break err resp"
    by auto
  from a(3) p(5) have "filter attemptEvent Z = []" by (cases err) auto
  with a(2) p(4) have 1: "filter attemptEvent post = []" by simp
  from a(1) p(3) have "pre = (P @ A @ EvGetCircuit (resolvedName c rq_i) (h c (resolvedName c rq_i)) #
            (if 1 \<le> int n then [EvReqBody None] else [])) @
            [EvExecute b TODO, EvClientDo rr (Some ce), EvExecuted b err0, EvNow, EvNow] @ readEvents rr"
    by simp
  with 1 show ?thesis by blast
qed

lemma guarded_failure_position:
  assumes run: "Do c x ctx rq (start w) = (res, s')"
    and tr: "trace s' = pre @ EvExecute b ctx' # EvClientDo rr (Some ce) # post"
  shows "\<exists>err0 post'. post = EvExecuted b err0 # EvNow # EvNow # post' \<and>
     ((\<exists>raw e. rr = Some raw \<and> res = Inl (Returned e) \<and>
          post' = [EvReadAll raw (Some e), EvLog ''ioutil.ReadAll(rawResponse.Body)'' e]) \<or>
      (\<exists>raw e. rr = Some raw \<and> res = Inl (Returned e) \<and>
          post' = [EvReadAll raw None, EvClose raw (Some e), EvLog ''rawResponse.Body.Close()'' e]) \<or>
      (\<exists>v post''. post' = readEvents rr @ EvIsOpen b v # post''))"
proof -
  from tr have tr': "trace s' = (pre @ [EvExecute b ctx']) @ EvClientDo rr (Some ce) # post" by simp
  from Do_position [OF run tr'] obtain rq_i n s_i out s_i' P A pre_i post_i Z where
    p: "attempt c x rq_i (int n) s_i = (out, s_i')"
      "trace s_i' = trace s_i @ pre_i @ EvClientDo rr (Some ce) # post_i"
      "pre @ [EvExecute b ctx'] = P @ A @ pre_i" "post = post_i @ Z"
      "case out of
         Continue rq' err' resp' \<Rightarrow> (\<exists>name cb Z'. Z = EvGetCircuit name cb # Z')
       | Return f \<Rightarrow> Z = [] \<and> res = Inl f
       | Break None resp' \<Rightarrow> filter attemptEvent Z = []
       | Break (Some err') resp' \<Rightarrow> Z = [EvLog ''c.client.Do'' err'] \<and> res = Inl (Returned err')"
    by auto
  let ?cb = "h c (resolvedName c rq_i)"
  from attempt_ClientDo [OF p(1,2)] obtain X Y W where
    a: "pre_i = EvGetCircuit (resolvedName c rq_i) ?cb # (if 1 \<le> int n then [EvReqBody None] else []) @ X"
      "post_i = Y @ EvNow # EvNow # W"
      "(?cb = None \<and> X = [] \<and> Y = []) \<or>
       (\<exists>b err0. ?cb = Some b \<and> X = [EvExecute b TODO] \<and> Y = [EvExecuted b err0])"
      "(\<exists>raw e. rr = Some raw \<and> out = Return (Returned e) \<and>
               W = [EvReadAll raw (Some e), EvLog ''ioutil.ReadAll(rawResponse.Body)'' e]) \<or>
       (\<exists>raw e. rr = Some raw \<and> out = Return (Returned e) \<and>
               W = [EvReadAll raw None, EvClose raw (Some e), EvLog ''rawResponse.Body.Close()'' e]) \<or>
       (\<exists>W'. W = readEvents rr @ W' \<and>
               (if ?cb \<noteq> None \<and> Some ce \<noteq> None
                then (\<exists>v W''. W' = EvIsOpen (the ?cb) v # W'')
                else filter isIsOpen W' = []))"
    by blast
  from p(3) a(1) have l: "last (EvGetCircuit (resolvedName c rq_i) ?cb #
      (if 1 \<le> int n then [EvReqBody None] else []) @ X) = EvExecute b ctx'"
    by (metis append_assoc append_is_Nil_conv last_appendR last_snoc list.distinct(1))
  from a(3) l obtain err0 where g: "?cb = Some b" "Y = [EvExecuted b err0]"
    by (auto split: if_splits)
  from a(4) g(1) p(5) have
    "(\<exists>raw e. rr = Some raw \<and> res = Inl (Returned e) \<and>
          W @ Z = [EvReadAll raw (Some e), EvLog ''ioutil.ReadAll(rawResponse.Body)'' e]) \<or>
      (\<exists>raw e. rr = Some raw \<and> res = Inl (Returned e) \<and>
          W @ Z = [EvReadAll raw None, EvClose raw (Some e), EvLog ''rawResponse.Body.Close()'' e]) \<or>
      (\<exists>v post''. W @ Z = readEvents rr @ EvIsOpen b v # post'')"
    by auto
  with a(2) g(2) p(4) show ?thesis
    by (intro exI [of _ err0] exI [of _ "W @ Z"]) simp
qed

text \<open>
  C2, as stated, fails. The loop asks the breaker only under \<^verbatim>\<open>fallback\<close> (line 222),
  that is after an attempt whose transport call returned an error inside the guard.
  Here the server answers 500 without a transport error, the breaker reports itself
  open whenever asked, the retry hook votes for a retry on status 500: the first
  attempt ends in \<^verbatim>\<open>continue\<close> although the breaker is open after it, and
  \<^verbatim>\<open>Do\<close> calls the transport three times.
\<close>

theorem open_breaker_counterexample:
  "h guardedRetrying (resolvedName guardedRetrying (request (pong Background))) = Some (Circuit 1) \<and>
   IsOpen tripped (Circuit 1)
     (world (snd (attempt guardedRetrying tripped (request (pong Background)) 0 (start 0)))) \<and>
   isContinue (fst (attempt guardedRetrying tripped (request (pong Background)) 0 (start 0))) \<and>
   length (filter isClientDo (trace (snd (Do guardedRetrying tripped Background ping (start 0))))) = 3"
  by code_simp

text \<open>
  C2, amended. In a call of \<^verbatim>\<open>Do\<close>, after a transport call that returned an error
  inside the guard of the breaker \<open>b\<close>, \<^verbatim>\<open>Execute\<close> returns, the timestamps are taken,
  the body of a raw response (if any) is read and closed (an error there ends
  \<^verbatim>\<open>Do\<close>), and then \<open>b\<close> is asked whether it is open. If it answers that it is, no
  further attempt occurs and no retry hook is asked: nothing of the attempt loop
  follows in the trace. The breaker is asked at no other place.
\<close>

theorem open_breaker_stops_loop:
  assumes "Do c x ctx rq (start w) = (res, s')"
  shows
    "(\<forall>pre b post. trace s' = pre @ EvIsOpen b True # post \<longrightarrow>
        filter attemptEvent post = [] \<and>
        (\<exists>pre' rr ce err0. pre = pre' @
            [EvExecute b TODO, EvClientDo rr (Some ce), EvExecuted b err0, EvNow, EvNow] @ readEvents rr)) \<and>
     (\<forall>pre b ctx' rr ce post. trace s' = pre @ EvExecute b ctx' # EvClientDo rr (Some ce) # post \<longrightarrow>
        (\<exists>err0 post'. post = EvExecuted b err0 # EvNow # EvNow # post' \<and>
          ((\<exists>raw e. rr = Some raw \<and> res = Inl (Returned e) \<and>
              post' = [EvReadAll raw (Some e), EvLog ''ioutil.ReadAll(rawResponse.Body)'' e]) \<or>
           (\<exists>raw e. rr = Some raw \<and> res = Inl (Returned e) \<and>
              post' = [EvReadAll raw None, EvClose raw (Some e), EvLog ''rawResponse.Body.Close()'' e]) \<or>
           (\<exists>v post''. post' = readEvents rr @ EvIsOpen b v # post''))))"
  using isOpen_position [OF assms] guarded_failure_position [OF assms] by blast

theorem open_breaker_stops_loop_witness:
  "trace (snd (Do guardedUnreachable tripped Background ping (start 0))) =
     [EvReqBody None, EvNewRequest Background ''GET'' ''http://host/ping'' [],
      EvGetCircuit ''svc'' (Some (Circuit 1)), EvExecute (Circuit 1) TODO,
      EvClientDo None (Some (Error ''refused'')),
      EvExecuted (Circuit 1) (Some (Error ''refused'')), EvNow, EvNow,
      EvIsOpen (Circuit 1) True, EvLog ''c.client.Do'' (Error ''refused'')] \<and>
   filter attemptEvent [EvLog ''c.client.Do'' (Error ''refused'')] = [] \<and>
   retry guardedUnreachable = 5 \<and> fst (retryAlways None None 0)"
proof -
  let ?run = "Do guardedUnreachable tripped Background ping (start 0)"
  have run: "?run = (fst ?run, snd ?run)" by simp
  have tr: "trace (snd ?run) =
     [EvReqBody None, EvNewRequest Background ''GET'' ''http://host/ping'' [],
      EvGetCircuit ''svc'' (Some (Circuit 1)), EvExecute (Circuit 1) TODO,
      EvClientDo None (Some (Error ''refused'')),
      EvExecuted (Circuit 1) (Some (Error ''refused'')), EvNow, EvNow] @
      EvIsOpen (Circuit 1) True # [EvLog ''c.client.Do'' (Error ''refused'')]"
    by code_simp
  from open_breaker_stops_loop [OF run, THEN conjunct1, rule_format, OF tr]
  have "filter attemptEvent [EvLog ''c.client.Do'' (Error ''refused'')] = []" by blast
  moreover have "retry guardedUnreachable = 5" by code_simp
  moreover have "fst (retryAlways None None 0)" by code_simp
  ultimately show ?thesis using tr by simp
qed

subsection \<open>The retry hooks\<close>

lemma Break_tail:
  assumes "case out of
         Continue rq' err' resp' \<Rightarrow> (\<exists>name cb Z'. Z = EvGetCircuit name cb # Z')
       | Return f \<Rightarrow> Z = [] \<and> res = Inl f
       | Break None resp' \<Rightarrow> filter attemptEvent Z = []
       | Break (Some err') resp' \<Rightarrow> Z = [EvLog ''c.client.Do'' err'] \<and> res = Inl (Returned err')"
    and "out = Break e' r'"
  shows "filter attemptEvent Z = []"
  using assms by (cases e') auto

lemma retryHook_position:
  assumes run: "Do c x ctx rq (start w) = (res, s')"
    and tr: "trace s' = pre @ EvRetryHook k resp err v # post"
  shows "k < length (retryHooks c) \<and>
     (\<exists>pre' T rr err0 Q rp.
        pre = pre' @ T @ [EvNow, EvNow] @ readEvents rr @ Q @
              map (\<lambda>j. EvRetryHook j resp err False) [0..<k] \<and>
        (T = [EvClientDo rr err0] \<or>
         (\<exists>b. T = [EvExecute b TODO, EvExecuted b err0] \<and> rr = None) \<or>
         (\<exists>b cerr. T = [EvExecute b TODO, EvClientDo rr cerr, EvExecuted b err0])) \<and>
        (Q = [] \<or> (\<exists>b. Q = [EvIsOpen b False])) \<and>
        resp = Some rp \<and> rawResponse rp = rr \<and>
        (if rr = None then err = err0 else err = None)) \<and>
     (if v then
        (\<exists>d post'. post = EvBackoff (int (length (filter isGetCircuit pre))) d # post' \<and>
            int (length (filter isGetCircuit pre)) \<le> retry c \<and> stg c \<noteq> None) \<or>
        (filter attemptEvent post = [] \<and>
            (retry c < int (length (filter isGetCircuit pre)) \<or> stg c = None))
      else
        (Suc k < length (retryHooks c) \<and> (\<exists>v' post'. post = EvRetryHook (Suc k) resp err v' # post')) \<or>
        (Suc k = length (retryHooks c) \<and> filter attemptEvent post = []))"
proof -
  from Do_position [OF run tr] obtain rq_i n s_i out s_i' P A pre_i post_i Z where
    p: "attempt c x rq_i (int n) s_i = (out, s_i')"
      "trace s_i' = trace s_i @ pre_i @ EvRetryHook k resp err v # post_i"
      "pre = P @ A @ pre_i" "post = post_i @ Z"
      "filter attemptEvent P = []"
      "length (filter isGetCircuit A) = n"
      "case out of
         Continue rq' err' resp' \<Rightarrow> (\<exists>name cb Z'. Z = EvGetCircuit name cb # Z')
       | Return f \<Rightarrow> Z = [] \<and> res = Inl f
       | Break None resp' \<Rightarrow> filter attemptEvent Z = []
       | Break (Some err') resp' \<Rightarrow> Z = [EvLog ''c.client.Do'' err'] \<and> res = Inl (Returned err')"
    by auto
  let ?G = "EvGetCircuit (resolvedName c rq_i) (h c (resolvedName c rq_i))"
  let ?R = "if 1 \<le> int n then [EvReqBody None] else []"
  from attempt_RetryHook [OF p(1,2)] obtain T rr err0 Q rp where
    a: "pre_i = ?G # ?R @ T @ [EvNow, EvNow] @ readEvents rr @ Q @
             map (\<lambda>j. EvRetryHook j resp err False) [0..<k]"
      "(h c (resolvedName c rq_i) = None \<and> T = [EvClientDo rr err0] \<and> Q = []) \<or>
       (\<exists>b. h c (resolvedName c rq_i) = Some b \<and> T = [EvExecute b TODO, EvExecuted b err0] \<and> rr = None \<and>
           err0 \<noteq> None \<and> Q = []) \<or>
       (\<exists>b. h c (resolvedName c rq_i) = Some b \<and> T = [EvExecute b TODO, EvClientDo rr None, EvExecuted b err0] \<and>
           Q = []) \<or>
       (\<exists>b ce. h c (resolvedName c rq_i) = Some b \<and>
           T = [EvExecute b TODO, EvClientDo rr (Some ce), EvExecuted b err0] \<and> Q = [EvIsOpen b False])"
      "k < length (retryHooks c)"
      "if v then
        (post_i = [] \<and> (\<exists>e' r'. out = Break e' r') \<and> (retry c < int n + 1 \<or> stg c = None)) \<or>
        (\<exists>d. post_i = [EvBackoff (int n + 1) d, EvAfter d] \<and> isContinue out \<and>
             int n + 1 \<le> retry c \<and> stg c \<noteq> None)
      else
        (Suc k < length (retryHooks c) \<and> (\<exists>v' post'. post_i = EvRetryHook (Suc k) resp err v' # post')) \<or>
        (Suc k = length (retryHooks c) \<and> post_i = [] \<and> (\<exists>e' r'. out = Break e' r'))"
      "resp = Some rp" "rawResponse rp = rr"
      "if rr = None then body rp = None \<and> statusCode rp = 0 \<and> err = err0
       else body rp \<noteq> None \<and> statusCode rp = StatusCode (the rr) \<and> err = None"
    by blast
  from attempt_prefix_count [OF p(1,2)] have "length (filter isGetCircuit pre_i) = 1" by simp
  with p(3,6) no_attemptEvent_no_GetCircuit [OF p(5)]
  have cnt: "int (length (filter isGetCircuit pre)) = int n + 1" by simp
  have T: "T = [EvClientDo rr err0] \<or>
         (\<exists>b. T = [EvExecute b TODO, EvExecuted b err0] \<and> rr = None) \<or>
         (\<exists>b cerr. T = [EvExecute b TODO, EvClientDo rr cerr, EvExecuted b err0])"
    and Q: "Q = [] \<or> (\<exists>b. Q = [EvIsOpen b False])"
    using a(2) by auto
  have e: "if rr = None then err = err0 else err = None" using a(7) by (simp split: if_splits)
  have "pre = (P @ A @ ?G # ?R) @ T @ [EvNow, EvNow] @ readEvents rr @ Q @
      map (\<lambda>j. EvRetryHook j resp err False) [0..<k]"
    using p(3) a(1) by simp
  with T Q a(5,6) e have 2: "\<exists>pre' T rr err0 Q rp.
        pre = pre' @ T @ [EvNow, EvNow] @ readEvents rr @ Q @
              map (\<lambda>j. EvRetryHook j resp err False) [0..<k] \<and>
        (T = [EvClientDo rr err0] \<or>
         (\<exists>b. T = [EvExecute b TODO, EvExecuted b err0] \<and> rr = None) \<or>
         (\<exists>b cerr. T = [EvExecute b TODO, EvClientDo rr cerr, EvExecuted b err0])) \<and>
        (Q = [] \<or> (\<exists>b. Q = [EvIsOpen b False])) \<and>
        resp = Some rp \<and> rawResponse rp = rr \<and>
        (if rr = None then err = err0 else err = None)"
    by blast
  have 3: "if v then
        (\<exists>d post'. post = EvBackoff (int (length (filter isGetCircuit pre))) d # post' \<and>
            int (length (filter isGetCircuit pre)) \<le> retry c \<and> stg c \<noteq> None) \<or>
        (filter attemptEvent post = [] \<and>
            (retry c < int (length (filter isGetCircuit pre)) \<or> stg c = None))
      else
        (Suc k < length (retryHooks c) \<and> (\<exists>v' post'. post = EvRetryHook (Suc k) resp err v' # post')) \<or>
        (Suc k = length (retryHooks c) \<and> filter attemptEvent post = [])"
  proof (cases v)
    case True
    with a(4) consider
        (stop) e' r' where "post_i = []" "out = Break e' r'" "retry c < int n + 1 \<or> stg c = None"
      | (wait) d where "post_i = [EvBackoff (int n + 1) d, EvAfter d]" "int n + 1 \<le> retry c" "stg c \<noteq> None"
      by auto
    then show ?thesis
    proof cases
      case stop
      from Break_tail [OF p(7) stop(2)] stop(1,3) p(4) cnt True show ?thesis by simp
    next
      case (wait d)
      with p(4) cnt True show ?thesis by simp
    qed
  next
    case False
    with a(4) consider
        (more) v' post' where "Suc k < length (retryHooks c)" "post_i = EvRetryHook (Suc k) resp err v' # post'"
      | (final) e' r' where "Suc k = length (retryHooks c)" "post_i = []" "out = Break e' r'"
      by auto
    then show ?thesis
    proof cases
      case more
      with p(4) False show ?thesis by simp
    next
      case final
      from Break_tail [OF p(7) final(3)] final(1,2) p(4) False show ?thesis by simp
    qed
  qed
  from a(3) 2 3 show ?thesis by blast
qed

text \<open>
  C3. In a call of \<^verbatim>\<open>Do\<close>, take any call of a retry hook: the hook at position \<open>k\<close>
  of the chain, called with \<open>(resp, err)\<close>, voting \<open>v\<close>.

  \<^item> The hooks \<open>0, \<dots>, k - 1\<close> were called just before it, in this order, with the
    same pair, and each voted against a retry; before them come the events of the
    same attempt. \<open>resp\<close> is the response built in this attempt, and \<open>err\<close> is the
    error of the transport call (of \<^verbatim>\<open>Execute\<close> under a breaker) when the attempt
    got no raw response, and nil when the body of a raw response was read.
  \<^item> If the hook votes for a retry, no further hook is called in this attempt: the
    next call is \<^verbatim>\<open>backoff(count)\<close>, provided \<^verbatim>\<open>count <= retry\<close> and a strategy is
    configured; otherwise (budget exhausted, or no strategy) nothing of the attempt
    loop follows.
  \<^item> If it votes against, the next hook of the chain is called with the same pair;
    after the last hook of the chain nothing of the attempt loop follows.

  \<^verbatim>\<open>count\<close>, the number of attempts begun so far, is the number of breaker lookups in
  the trace up to the hook.
\<close>

theorem retry_hooks_decide:
  assumes "Do c x ctx rq (start w) = (res, s')"
  shows "\<forall>pre k resp err v post. trace s' = pre @ EvRetryHook k resp err v # post \<longrightarrow>
     k < length (retryHooks c) \<and>
     (\<exists>pre' T rr err0 Q rp.
        pre = pre' @ T @ [EvNow, EvNow] @ readEvents rr @ Q @
              map (\<lambda>j. EvRetryHook j resp err False) [0..<k] \<and>
        (T = [EvClientDo rr err0] \<or>
         (\<exists>b. T = [EvExecute b TODO, EvExecuted b err0] \<and> rr = None) \<or>
         (\<exists>b cerr. T = [EvExecute b TODO, EvClientDo rr cerr, EvExecuted b err0])) \<and>
        (Q = [] \<or> (\<exists>b. Q = [EvIsOpen b False])) \<and>
        resp = Some rp \<and> rawResponse rp = rr \<and>
        (if rr = None then err = err0 else err = None)) \<and>
     (if v then
        (\<exists>d post'. post = EvBackoff (int (length (filter isGetCircuit pre))) d # post' \<and>
            int (length (filter isGetCircuit pre)) \<le> retry c \<and> stg c \<noteq> None) \<or>
        (filter attemptEvent post = [] \<and>
            (retry c < int (length (filter isGetCircuit pre)) \<or> stg c = None))
      else
        (Suc k < length (retryHooks c) \<and> (\<exists>v' post'. post = EvRetryHook (Suc k) resp err v' # post')) \<or>
        (Suc k = length (retryHooks c) \<and> filter attemptEvent post = []))"
  using retryHook_position [OF assms] by blast

theorem retry_hooks_decide_witness:
  "trace (snd (Do twoHooks plain Background ping (start 0))) ! 9 =
     EvRetryHook 1 (Some (reply 500 0)) None True \<and>
   take 1 (drop 8 (trace (snd (Do twoHooks plain Background ping (start 0))))) =
     [EvRetryHook 0 (Some (reply 500 0)) None False] \<and>
   take 1 (drop 10 (trace (snd (Do twoHooks plain Background ping (start 0))))) = [EvBackoff 1 0] \<and>
   trace (snd (Do twoHooks plain Background ping (start 0))) ! 31 =
     EvRetryHook 1 (Some (reply 200 2)) None False \<and>
   drop 32 (trace (snd (Do twoHooks plain Background ping (start 0)))) = [] \<and>
   length (retryHooks twoHooks) = 2"
proof -
  let ?run = "Do twoHooks plain Background ping (start 0)"
  let ?tr = "trace (snd ?run)"
  have run: "?run = (fst ?run, snd ?run)" by simp
  have s1: "?tr = take 9 ?tr @ EvRetryHook 1 (Some (reply 500 0)) None True # drop 10 ?tr"
    by code_simp
  have s2: "?tr = take 31 ?tr @ EvRetryHook 1 (Some (reply 200 2)) None False # drop 32 ?tr"
    by code_simp
  from retry_hooks_decide [OF run, rule_format, OF s1]
  have a: "1 < length (retryHooks twoHooks)" by blast
  from retry_hooks_decide [OF run, rule_format, OF s2]
  have b: "(Suc 1 < length (retryHooks twoHooks) \<and>
      (\<exists>v' post'. drop 32 ?tr = EvRetryHook (Suc 1) (Some (reply 200 2)) None v' # post')) \<or>
     (Suc 1 = length (retryHooks twoHooks) \<and> filter attemptEvent (drop 32 ?tr) = [])"
    by simp
  have c: "?tr ! 9 = EvRetryHook 1 (Some (reply 500 0)) None True" by code_simp
  have d: "take 1 (drop 8 ?tr) = [EvRetryHook 0 (Some (reply 500 0)) None False]" by code_simp
  have e: "take 1 (drop 10 ?tr) = [EvBackoff 1 0]" by code_simp
  have f: "?tr ! 31 = EvRetryHook 1 (Some (reply 200 2)) None False" by code_simp
  have g: "drop 32 ?tr = []" by code_simp
  have h: "length (retryHooks twoHooks) = 2" by code_simp
  from a b c d e f g h show ?thesis by simp
qed

subsection \<open>The breaker of an attempt\<close>

lemma attempt_after_GetCircuit:
  assumes run: "attempt c x rq count s = (out, s')"
    and tr: "trace s' = trace s @ pre_i @ EvGetCircuit name cb # post_i"
  shows "name = resolvedName c rq \<and> cb = h c name \<and>
    ((\<exists>e. 1 \<le> count \<and> post_i = [EvReqBody (Some e)] \<and> out = Return (Returned e)) \<or>
     (\<exists>rest. post_i = (if 1 \<le> count then [EvReqBody None] else []) @ rest \<and>
        (case cb of
           None \<Rightarrow> (rest = [] \<and> out = Return Panic) \<or>
                   (\<exists>rr terr rest'. rest = EvClientDo rr terr # EvNow # EvNow # rest')
         | Some b \<Rightarrow> (rest = [] \<and> out = Return Panic) \<or>
                     (\<exists>rest'. rest = EvExecute b TODO # rest'))))"
proof -
  from attempt_GetCircuit [OF assms] have g: "pre_i = []" "name = resolvedName c rq" "cb = h c name"
    by simp_all
  let ?R = "if 1 \<le> count then [EvReqBody None] else []"
  have fin: ?thesis if "post_i = ?R @ rest"
    "case cb of
       None \<Rightarrow> (rest = [] \<and> out = Return Panic) \<or>
               (\<exists>rr terr rest'. rest = EvClientDo rr terr # EvNow # EvNow # rest')
     | Some b \<Rightarrow> (rest = [] \<and> out = Return Panic) \<or> (\<exists>rest'. rest = EvExecute b TODO # rest')"
    for rest
    using that g by blast
  from run show ?thesis
  proof (cases rule: attempt_cases)
    case (BodyError e)
    from trace_split [OF BodyError(3) tr] g BodyError(1,2) show ?thesis by simp
  next
    case (Panic T)
    from trace_split [OF Panic(2) tr] g have "post_i = ?R @ T" by simp
    with Panic(1,3) g show ?thesis by (intro fin [of T]) (auto split: option.splits)
  next
    case (ReadError T terr raw e)
    let ?W = "[EvNow, EvNow, EvReadAll raw (Some e), EvLog ''ioutil.ReadAll(rawResponse.Body)'' e]"
    from trace_split [OF ReadError(2) tr] g have "post_i = ?R @ T @ ?W" by simp
    with ReadError(3) g show ?thesis by (intro fin [of "T @ ?W"]) (auto split: option.splits)
  next
    case (CloseError T terr raw e)
    let ?W = "[EvNow, EvNow, EvReadAll raw None, EvClose raw (Some e), EvLog ''rawResponse.Body.Close()'' e]"
    from trace_split [OF CloseError(2) tr] g have "post_i = ?R @ T @ ?W" by simp
    with CloseError(3) g show ?thesis by (intro fin [of "T @ ?W"]) (auto split: option.splits)
  next
    case (Open b rr ce err0 resp err)
    let ?W = "[EvExecute b TODO, EvClientDo rr (Some ce), EvExecuted b err0, EvNow, EvNow] @
        readEvents rr @ [EvIsOpen b True]"
    from trace_split [OF Open(3) tr] g have "post_i = ?R @ ?W" by simp
    with Open(1) g show ?thesis by (intro fin [of ?W]) (auto split: option.splits)
  next
    case (Voted T rr err0 Q resp err n v S)
    let ?W = "T @ [EvNow, EvNow] @ readEvents rr @ Q @ votes (Some resp) err n v @ S"
    from trace_split [OF Voted(1) tr] g have "post_i = ?R @ ?W" by simp
    with Voted(2) g show ?thesis by (intro fin [of ?W]) (auto split: option.splits)
  qed
qed

lemma getCircuit_position:
  assumes run: "genReply c x rq s = (r, s')"
    and tr: "trace s' = trace s @ pre @ EvGetCircuit name cb # post"
  shows "name = (if 0 < length (circuitName rq) then circuitName rq else defaultCircuitName c) \<and>
    cb = h c name \<and>
    ((\<exists>e. pre \<noteq> [] \<and> post = [EvReqBody (Some e)] \<and> r = Inl (Returned e)) \<or>
     (\<exists>rest. post = (if pre \<noteq> [] then [EvReqBody None] else []) @ rest \<and>
        (case cb of
           None \<Rightarrow> (rest = [] \<and> r = Inl Panic) \<or>
                   (\<exists>rr terr rest'. rest = EvClientDo rr terr # EvNow # EvNow # rest')
         | Some b \<Rightarrow> (rest = [] \<and> r = Inl Panic) \<or>
                     (\<exists>rest'. rest = EvExecute b TODO # rest'))))"
proof -
  from genReply_position [OF run tr] obtain rq_i n s_i out s_i' A pre_i post_i Z where
    p: "attempt c x rq_i (int n) s_i = (out, s_i')"
      "rq_i = rq\<lparr>rawRequest := rawRequest rq_i, prof := prof rq_i\<rparr>"
      "trace s_i' = trace s_i @ pre_i @ EvGetCircuit name cb # post_i"
      "pre = A @ pre_i" "post = post_i @ Z"
      "length (filter isGetCircuit A) = n"
      "if n = 0 then A = [] else (\<exists>A' d. A = A' @ [EvBackoff (int n) d, EvAfter d])"
      "case out of
         Continue rq' err' resp' \<Rightarrow> (\<exists>name cb Z'. Z = EvGetCircuit name cb # Z')
       | Return f \<Rightarrow> Z = [] \<and> r = Inl f
       | Break None resp' \<Rightarrow> Z = [] \<and> r = Inr resp'
       | Break (Some err') resp' \<Rightarrow> Z = [EvLog ''c.client.Do'' err'] \<and> r = Inl (Returned err')"
    by auto
  from attempt_GetCircuit [OF p(1,3)] have "pre_i = []" by simp
  with p(4,7) have n: "(1 \<le> int n) = (pre \<noteq> [])" by (cases "n = 0") auto
  have "circuitName rq_i = circuitName rq" by (subst p(2)) simp
  then have nm: "resolvedName c rq_i = (if 0 < length (circuitName rq) then circuitName rq else defaultCircuitName c)"
    by (simp add: resolvedName_def)
  from attempt_after_GetCircuit [OF p(1,3)] have
    a: "name = resolvedName c rq_i" "cb = h c name"
      "(\<exists>e. 1 \<le> int n \<and> post_i = [EvReqBody (Some e)] \<and> out = Return (Returned e)) \<or>
     (\<exists>rest. post_i = (if 1 \<le> int n then [EvReqBody None] else []) @ rest \<and>
        (case cb of
           None \<Rightarrow> (rest = [] \<and> out = Return Panic) \<or>
                   (\<exists>rr terr rest'. rest = EvClientDo rr terr # EvNow # EvNow # rest')
         | Some b \<Rightarrow> (rest = [] \<and> out = Return Panic) \<or>
                     (\<exists>rest'. rest = EvExecute b TODO # rest')))"
    by blast+
  from a(3) show ?thesis
  proof (elim disjE exE conjE)
    fix e
    assume "1 \<le> int n" "post_i = [EvReqBody (Some e)]" "out = Return (Returned e)"
    with p(5,8) n a(1,2) nm show ?thesis by simp
  next
    fix rest
    assume r: "post_i = (if 1 \<le> int n then [EvReqBody None] else []) @ rest"
      "case cb of
           None \<Rightarrow> (rest = [] \<and> out = Return Panic) \<or>
                   (\<exists>rr terr rest'. rest = EvClientDo rr terr # EvNow # EvNow # rest')
         | Some b \<Rightarrow> (rest = [] \<and> out = Return Panic) \<or>
                     (\<exists>rest'. rest = EvExecute b TODO # rest')"
    have "case cb of
           None \<Rightarrow> (rest @ Z = [] \<and> r = Inl Panic) \<or>
                   (\<exists>rr terr rest'. rest @ Z = EvClientDo rr terr # EvNow # EvNow # rest')
         | Some b \<Rightarrow> (rest @ Z = [] \<and> r = Inl Panic) \<or>
                     (\<exists>rest'. rest @ Z = EvExecute b TODO # rest')"
      using r(2) p(8) by (auto split: option.splits)
    moreover have "post = (if pre \<noteq> [] then [EvReqBody None] else []) @ rest @ Z"
      using r(1) p(5) n by simp
    ultimately show ?thesis using a(1,2) nm by blast
  qed
qed

text \<open>
  C5. In a call of \<^verbatim>\<open>genReply\<close> for the request \<open>rq\<close>, every attempt looks the breaker
  up under \<open>rq\<close>'s own \<^verbatim>\<open>circuitName\<close> when that is not empty, and under the
  client's default circuit name otherwise; \<open>cb\<close> is what the registry holds under
  that name. From the second attempt on the body is built again (an error there is
  returned). Then, when the lookup gave nothing, \<^verbatim>\<open>c.client.Do\<close> is called at once,
  outside any \<^verbatim>\<open>Execute\<close>, and the timestamps follow; when it gave the breaker \<open>b\<close>,
  the next call is \<open>b\<close>'s \<^verbatim>\<open>Execute\<close>. (With a nil \<^verbatim>\<open>rawRequest\<close> the call panics
  instead.)
\<close>

theorem breaker_resolution:
  assumes "genReply c x rq s = (r, s')"
  shows "\<forall>pre name cb post. trace s' = trace s @ pre @ EvGetCircuit name cb # post \<longrightarrow>
    name = (if 0 < length (circuitName rq) then circuitName rq else defaultCircuitName c) \<and>
    cb = h c name \<and>
    ((\<exists>e. pre \<noteq> [] \<and> post = [EvReqBody (Some e)] \<and> r = Inl (Returned e)) \<or>
     (\<exists>rest. post = (if pre \<noteq> [] then [EvReqBody None] else []) @ rest \<and>
        (case cb of
           None \<Rightarrow> (rest = [] \<and> r = Inl Panic) \<or>
                   (\<exists>rr terr rest'. rest = EvClientDo rr terr # EvNow # EvNow # rest')
         | Some b \<Rightarrow> (rest = [] \<and> r = Inl Panic) \<or>
                     (\<exists>rest'. rest = EvExecute b TODO # rest'))))"
  using getCircuit_position [OF assms] by blast

theorem breaker_resolution_witness:
  "trace (snd (genReply guarded plain (request (pong Background)) (start 0))) =
     [EvGetCircuit ''svc'' (Some (Circuit 1)), EvExecute (Circuit 1) TODO,
      EvClientDo (Some \<lparr>StatusCode = 200, BodyStream = 0\<rparr>) None, EvExecuted (Circuit 1) None,
      EvNow, EvNow, EvReadAll \<lparr>StatusCode = 200, BodyStream = 0\<rparr> None,
      EvClose \<lparr>StatusCode = 200, BodyStream = 0\<rparr> None] \<and>
   defaultCircuitName guarded = ''svc'' \<and> h guarded ''svc'' = Some (Circuit 1) \<and>
   trace (snd (genReply guarded plain (pingPay) (start 0))) =
     [EvGetCircuit ''pay'' None,
      EvClientDo (Some \<lparr>StatusCode = 200, BodyStream = 0\<rparr>) None,
      EvNow, EvNow, EvReadAll \<lparr>StatusCode = 200, BodyStream = 0\<rparr> None,
      EvClose \<lparr>StatusCode = 200, BodyStream = 0\<rparr> None] \<and>
   circuitName pingPay = ''pay'' \<and> h guarded ''pay'' = None"
proof -
  let ?a = "genReply guarded plain (request (pong Background)) (start 0)"
  let ?b = "genReply guarded plain pingPay (start 0)"
  have ra: "?a = (fst ?a, snd ?a)" and rb: "?b = (fst ?b, snd ?b)" by simp_all
  have ta: "trace (snd ?a) = trace (start 0) @ [] @ EvGetCircuit ''svc'' (Some (Circuit 1)) #
     [EvExecute (Circuit 1) TODO,
      EvClientDo (Some \<lparr>StatusCode = 200, BodyStream = 0\<rparr>) None, EvExecuted (Circuit 1) None,
      EvNow, EvNow, EvReadAll \<lparr>StatusCode = 200, BodyStream = 0\<rparr> None,
      EvClose \<lparr>StatusCode = 200, BodyStream = 0\<rparr> None]"
    by code_simp
  have tb: "trace (snd ?b) = trace (start 0) @ [] @ EvGetCircuit ''pay'' None #
     [EvClientDo (Some \<lparr>StatusCode = 200, BodyStream = 0\<rparr>) None,
      EvNow, EvNow, EvReadAll \<lparr>StatusCode = 200, BodyStream = 0\<rparr> None,
      EvClose \<lparr>StatusCode = 200, BodyStream = 0\<rparr> None]"
    by code_simp
  note a = breaker_resolution [OF ra, rule_format, OF ta, THEN conjunct2, THEN conjunct1]
  note b = breaker_resolution [OF rb, rule_format, OF tb, THEN conjunct2, THEN conjunct1]
  have c: "defaultCircuitName guarded = ''svc''" "circuitName pingPay = ''pay''" by code_simp+
  from a b c ta tb show ?thesis by simp
qed

lemma retryHook_response:
  assumes run: "genReply c x rq s = (r, s')"
    and tr: "trace s' = trace s @ pre @ EvRetryHook k resp err v # post"
  shows "\<exists>rp pre' T rr err0 Q.
     resp = Some rp \<and>
     request rp = rq\<lparr>rawRequest := rawRequest (request rp), prof := prof (request rp)\<rparr> \<and>
     rawResponse rp = rr \<and>
     pre = pre' @ T @ [EvNow, EvNow] @ readEvents rr @ Q @
           map (\<lambda>j. EvRetryHook j resp err False) [0..<k] \<and>
     (T = [EvClientDo rr err0] \<or>
      (\<exists>b. T = [EvExecute b TODO, EvExecuted b err0] \<and> rr = None) \<or>
      (\<exists>b cerr. T = [EvExecute b TODO, EvClientDo rr cerr, EvExecuted b err0])) \<and>
     (Q = [] \<or> (\<exists>b. Q = [EvIsOpen b False])) \<and>
     (if rr = None then body rp = None \<and> statusCode rp = 0
      else body rp \<noteq> None \<and> statusCode rp = StatusCode (the rr))"
proof -
  from genReply_position [OF run tr] obtain rq_i n s_i out s_i' A pre_i post_i Z where
    p: "attempt c x rq_i (int n) s_i = (out, s_i')"
      "rq_i = rq\<lparr>rawRequest := rawRequest rq_i, prof := prof rq_i\<rparr>"
      "trace s_i' = trace s_i @ pre_i @ EvRetryHook k resp err v # post_i"
      "pre = A @ pre_i"
    by auto
  let ?G = "EvGetCircuit (resolvedName c rq_i) (h c (resolvedName c rq_i))"
  let ?R = "if 1 \<le> int n then [EvReqBody None] else []"
  from attempt_RetryHook [OF p(1,3)] obtain T rr err0 Q rp where
    a: "pre_i = ?G # ?R @ T @ [EvNow, EvNow] @ readEvents rr @ Q @
             map (\<lambda>j. EvRetryHook j resp err False) [0..<k]"
      "(h c (resolvedName c rq_i) = None \<and> T = [EvClientDo rr err0] \<and> Q = []) \<or>
       (\<exists>b. h c (resolvedName c rq_i) = Some b \<and> T = [EvExecute b TODO, EvExecuted b err0] \<and> rr = None \<and>
           err0 \<noteq> None \<and> Q = []) \<or>
       (\<exists>b. h c (resolvedName c rq_i) = Some b \<and> T = [EvExecute b TODO, EvClientDo rr None, EvExecuted b err0] \<and>
           Q = []) \<or>
       (\<exists>b ce. h c (resolvedName c rq_i) = Some b \<and>
           T = [EvExecute b TODO, EvClientDo rr (Some ce), EvExecuted b err0] \<and> Q = [EvIsOpen b False])"
      "resp = Some rp" "rawResponse rp = rr"
      "request rp = rq_i\<lparr>rawRequest := rawRequest (request rp), prof := prof (request rp)\<rparr>"
      "if rr = None then body rp = None \<and> statusCode rp = 0 \<and> err = err0
       else body rp \<noteq> None \<and> statusCode rp = StatusCode (the rr) \<and> err = None"
    by blast
  have T: "T = [EvClientDo rr err0] \<or>
         (\<exists>b. T = [EvExecute b TODO, EvExecuted b err0] \<and> rr = None) \<or>
         (\<exists>b cerr. T = [EvExecute b TODO, EvClientDo rr cerr, EvExecuted b err0])"
    and Q: "Q = [] \<or> (\<exists>b. Q = [EvIsOpen b False])"
    using a(2) by auto
  have rq: "request rp = rq\<lparr>rawRequest := rawRequest (request rp), prof := prof (request rp)\<rparr>"
    using a(5) p(2) by (cases rq, cases rq_i, cases "request rp") auto
  have b: "if rr = None then body rp = None \<and> statusCode rp = 0
      else body rp \<noteq> None \<and> statusCode rp = StatusCode (the rr)"
    using a(6) by (simp split: if_splits)
  have pre: "pre = (A @ ?G # ?R) @ T @ [EvNow, EvNow] @ readEvents rr @ Q @
      map (\<lambda>j. EvRetryHook j resp err False) [0..<k]"
    using p(4) a(1) by simp
  show ?thesis
    apply (rule exI [of _ rp], rule exI [of _ "A @ ?G # ?R"], rule exI [of _ T], rule exI [of _ rr],
        rule exI [of _ err0], rule exI [of _ Q])
    apply (intro conjI)
          apply (rule a(3))
         apply (rule rq)
        apply (rule a(4))
       apply (rule pre)
      apply (rule T)
     apply (rule Q)
    apply (rule b)
    done
qed

text \<open>
  C10. In a call of \<^verbatim>\<open>genReply\<close> for the request \<open>rq\<close>, every call of a retry hook gets
  a response object that is not nil. Its \<^verbatim>\<open>request\<close> is \<open>rq\<close> (the loop only rewrites
  the raw request's body and the timestamps), and its \<^verbatim>\<open>rawResponse\<close> is what this
  attempt's transport call gave: the call is preceded by that transport call (bare,
  or inside the breaker's \<^verbatim>\<open>Execute\<close>), the two timestamps, the reading and closing of
  the raw response when there is one, at most one \<^verbatim>\<open>IsOpen\<close> answered no, and the
  earlier hooks of the chain. When the transport gave no raw response, the object has
  no raw response, an unset body and the status code zero; otherwise the body is set
  and the status code is the raw response's.
\<close>

theorem retry_hooks_get_response:
  assumes "genReply c x rq s = (r, s')"
  shows "\<forall>pre k resp err v post. trace s' = trace s @ pre @ EvRetryHook k resp err v # post \<longrightarrow>
    (\<exists>rp pre' T rr err0 Q.
       resp = Some rp \<and>
       request rp = rq\<lparr>rawRequest := rawRequest (request rp), prof := prof (request rp)\<rparr> \<and>
       rawResponse rp = rr \<and>
       pre = pre' @ T @ [EvNow, EvNow] @ readEvents rr @ Q @
             map (\<lambda>j. EvRetryHook j resp err False) [0..<k] \<and>
       (T = [EvClientDo rr err0] \<or>
        (\<exists>b. T = [EvExecute b TODO, EvExecuted b err0] \<and> rr = None) \<or>
        (\<exists>b cerr. T = [EvExecute b TODO, EvClientDo rr cerr, EvExecuted b err0])) \<and>
       (Q = [] \<or> (\<exists>b. Q = [EvIsOpen b False])) \<and>
       (if rr = None then body rp = None \<and> statusCode rp = 0
        else body rp \<noteq> None \<and> statusCode rp = StatusCode (the rr)))"
  using retryHook_response [OF assms] by blast

theorem retry_hooks_get_response_witness:
  "take 5 (trace (snd (genReply unreachableRetrying plain (request (pong Background)) (start 0)))) =
     [EvGetCircuit [] None, EvClientDo None (Some (Error ''refused'')), EvNow, EvNow,
      EvRetryHook 0 (Some noReply) (Some (Error ''refused'')) True] \<and>
   request noReply = request (pong Background) \<and>
   rawResponse noReply = None \<and> body noReply = None \<and> statusCode noReply = 0"
proof -
  let ?a = "genReply unreachableRetrying plain (request (pong Background)) (start 0)"
  have ra: "?a = (fst ?a, snd ?a)" by simp
  have ta: "trace (snd ?a) = trace (start 0) @ take 4 (trace (snd ?a)) @
      EvRetryHook 0 (Some noReply) (Some (Error ''refused'')) True # drop 5 (trace (snd ?a))"
    by code_simp
  have tk: "take 5 (trace (snd ?a)) =
     [EvGetCircuit [] None, EvClientDo None (Some (Error ''refused'')), EvNow, EvNow,
      EvRetryHook 0 (Some noReply) (Some (Error ''refused'')) True]"
    by code_simp
  have rq: "request noReply = request (pong Background)" and rr: "rawResponse noReply = None"
    by code_simp+
  from retry_hooks_get_response [OF ra, rule_format, OF ta] obtain rp rr' where
    "Some noReply = Some rp" "rawResponse rp = rr'"
    "if rr' = None then body rp = None \<and> statusCode rp = 0
     else body rp \<noteq> None \<and> statusCode rp = StatusCode (the rr')"
    by blast
  with rr have "body noReply = None \<and> statusCode noReply = 0" by simp
  with tk rq rr show ?thesis by simp
qed

end
